theory Spec2Isabelle
  imports Complex_Main "HOL-Library.Sublist" "HOL-Library.Multiset"
begin

section \<open>Host-language values\<close>

text \<open>
  The process list utilities of \<^verbatim>\<open>src/lib/utils/index.ts\<close> work on numbers, strings
  and arrays of the host language. A number is modelled as an exact real, or the
  not-a-number value \<open>NaN\<close> (the filter overlay stores \<^verbatim>\<open>parseInt\<close> of an input box
  as a threshold, which is \<open>NaN\<close> for an empty box). Rounding of binary floating
  point and the infinities are not modelled: arithmetic on finite numbers is exact.
  The attributes of a process arrive as serialised finite numbers, so they are reals.

  What the utilities call in the host and do not define themselves is a parameter of
  the model (the record \<open>host\<close> below): the case mapping and the trimming of strings,
  the regular expressions, the locale-aware comparison of strings and the sorting of
  an array. Nothing is assumed of these except where a statement says so.
\<close>

datatype jsnum = NaN | Num real

text \<open>The relational operators \<^verbatim>\<open>> < === >= <=\<close> on numbers: false whenever an
  operand is \<open>NaN\<close>.\<close>

fun js_gt :: "jsnum \<Rightarrow> jsnum \<Rightarrow> bool" where
  "js_gt (Num a) (Num b) = (b < a)"
| "js_gt _ _ = False"

fun js_lt :: "jsnum \<Rightarrow> jsnum \<Rightarrow> bool" where
  "js_lt (Num a) (Num b) = (a < b)"
| "js_lt _ _ = False"

fun js_eq :: "jsnum \<Rightarrow> jsnum \<Rightarrow> bool" where
  "js_eq (Num a) (Num b) = (a = b)"
| "js_eq _ _ = False"

fun js_ge :: "jsnum \<Rightarrow> jsnum \<Rightarrow> bool" where
  "js_ge (Num a) (Num b) = (b \<le> a)"
| "js_ge _ _ = False"

fun js_le :: "jsnum \<Rightarrow> jsnum \<Rightarrow> bool" where
  "js_le (Num a) (Num b) = (a \<le> b)"
| "js_le _ _ = False"

text \<open>Strings are lists of characters; a character stands for one unit of the
  string, and the comma, the digits and the operator symbols are single units.
  \<^verbatim>\<open>s.includes(t)\<close> holds when \<open>t\<close> is a contiguous part of \<open>s\<close>.\<close>

definition str_includes :: "string \<Rightarrow> string \<Rightarrow> bool" where
  "str_includes s t = sublist t s"

text \<open>\<^verbatim>\<open>s.split(",")\<close>: the pieces between the commas, in order; a string with no
  comma is one piece, and so is the empty string.\<close>

fun splitComma :: "string \<Rightarrow> string list" where
  "splitComma [] = [[]]"
| "splitComma (c # cs) =
     (if c = CHR '','' then [] # splitComma cs
      else (case splitComma cs of
              [] \<Rightarrow> [[c]]
            | t # ts \<Rightarrow> (c # t) # ts))"

text \<open>\<^verbatim>\<open>pid.toString()\<close>: the decimal digits of an integer, with a leading minus
  sign when it is negative.\<close>

definition digitChar :: "nat \<Rightarrow> char" where
  "digitChar d = char_of (48 + d)"

fun digitsOf :: "nat \<Rightarrow> string" where
  "digitsOf n = (if n < 10 then [digitChar n] else digitsOf (n div 10) @ [digitChar (n mod 10)])"

declare digitsOf.simps [simp del]

definition numberToString :: "int \<Rightarrow> string" where
  "numberToString i = (if i < 0 then CHR ''-'' # digitsOf (nat (- i)) else digitsOf (nat i))"

section \<open>Data model\<close>

text \<open>
  Modelled from the spec: the type declarations \<^verbatim>\<open>Process\<close> and \<^verbatim>\<open>SortConfig\<close> of
  \<^verbatim>\<open>$lib/types\<close> are imported by the utilities but are not among the sources. A
  process record has the attributes the specification's data model lists; a sort
  configuration names one of them and a direction.
\<close>

record process =
  pid :: int
  name :: string
  command :: string
  status :: string
  cpu_usage :: real
  memory_usage :: real
  run_time :: real
  disk_usage :: "real \<times> real"

datatype direction = Asc | Desc

datatype field = Pid | Name | Command | Status | Cpu_usage | Memory_usage | Run_time | Disk_usage

record sortConfig =
  field :: field
  direction :: direction

text \<open>The \<^verbatim>\<open>filters\<close> parameter of \<^verbatim>\<open>filterProcesses\<close>: three numeric clauses
  \<^verbatim>\<open>{operator, value, enabled}\<close> and the status clause \<^verbatim>\<open>{values, enabled}\<close>. The field
  names carry a prefix (\<open>nc_\<close>, \<open>sc_\<close>), and the status clause is \<open>status_f\<close>, because
  record fields of one theory share a name space.\<close>

record numericClause =
  nc_operator :: string
  nc_value :: jsnum
  nc_enabled :: bool

record statusClause =
  sc_values :: "string list"
  sc_enabled :: bool

record filters =
  cpu :: numericClause
  ram :: numericClause
  runtime :: numericClause
  status_f :: statusClause

text \<open>
  A compiled regular expression is represented by what \<^verbatim>\<open>regex.test\<close> answers on a
  string (the only flag the utilities pass is \<^verbatim>\<open>i\<close>, so \<^verbatim>\<open>test\<close> keeps no state).
\<close>

type_synonym regexp = "string \<Rightarrow> bool"

datatype exn = SyntaxError

text \<open>
  The store. Arrays are mutable objects, so a \<^verbatim>\<open>Process[]\<close> value is an address and
  the store maps each allocated address to the elements of the array. The store also
  holds the two module-level caches, \<^verbatim>\<open>regexCache\<close> and \<^verbatim>\<open>isPinned\<close>.
\<close>

record world =
  arrays :: "nat \<Rightarrow> process list option"
  nextRef :: nat
  regexCache :: "string \<Rightarrow> regexp option"
  isPinned :: "string \<Rightarrow> bool option"

definition newArray :: "process list \<Rightarrow> world \<Rightarrow> nat \<times> world" where
  "newArray ps w =
     (nextRef w, w\<lparr>arrays := (arrays w)(nextRef w \<mapsto> ps), nextRef := Suc (nextRef w)\<rparr>)"

text \<open>The elements of the array at an address. An argument of type \<^verbatim>\<open>Process[]\<close>
  always denotes an allocated array; an address that is not allocated reads as the
  empty array.\<close>

definition elems :: "world \<Rightarrow> nat \<Rightarrow> process list" where
  "elems w r = (case arrays w r of None \<Rightarrow> [] | Some ps \<Rightarrow> ps)"

text \<open>Every allocated address lies below the allocation counter.\<close>

definition wf_world :: "world \<Rightarrow> bool" where
  "wf_world w = (\<forall>r. arrays w r \<noteq> None \<longrightarrow> r < nextRef w)"

section \<open>The host\<close>

text \<open>
  The operations of the host that the utilities call:
  \<^item> \<^verbatim>\<open>s.toLowerCase()\<close> and \<^verbatim>\<open>s.trim()\<close>;
  \<^item> \<^verbatim>\<open>new RegExp(pattern, flags)\<close>, which compiles a pattern to \<open>Some\<close> expression or
    raises \<^verbatim>\<open>SyntaxError\<close>, which is \<open>None\<close>;
  \<^item> \<^verbatim>\<open>s.localeCompare(t)\<close>, a negative number, zero or a positive number;
  \<^item> \<^verbatim>\<open>Array.prototype.sort\<close> with a comparator. The comparator of \<^verbatim>\<open>sortProcesses\<close>
    writes to a module-level map, so the sort is given the state the comparator works
    on and returns it with the sorted elements. The language fixes the result only
    for a comparator that is a consistent ordering; otherwise the order is left to the
    engine.
\<close>

type_synonym ('a, 's) sortEngine =
  "('a \<Rightarrow> 'a \<Rightarrow> 's \<Rightarrow> real \<times> 's) \<Rightarrow> 'a list \<Rightarrow> 's \<Rightarrow> 'a list \<times> 's"

record host =
  toLowerCase :: "string \<Rightarrow> string"
  trim :: "string \<Rightarrow> string"
  regExp :: "string \<Rightarrow> string \<Rightarrow> regexp option"
  localeCompare :: "string \<Rightarrow> string \<Rightarrow> real"
  arraySort :: "(process, string \<Rightarrow> bool option) sortEngine"

section \<open>compareValue\<close>

definition compareValue :: "jsnum \<Rightarrow> string \<Rightarrow> jsnum \<Rightarrow> bool" where
  "compareValue v operator target =
     (if operator = ''>'' then js_gt v target
      else if operator = ''<'' then js_lt v target
      else if operator = ''='' then js_eq v target
      else if operator = ''>='' then js_ge v target
      else if operator = ''<='' then js_le v target
      else True)"

section \<open>filterProcesses\<close>

text \<open>\<^verbatim>\<open>Array.prototype.some\<close> and \<^verbatim>\<open>Array.prototype.filter\<close> with a callback that
  reads and writes a piece of state (here the cache of compiled patterns): \<open>some\<close>
  stops at the first element the callback accepts.\<close>

fun arraySome :: "('a \<Rightarrow> 's \<Rightarrow> bool \<times> 's) \<Rightarrow> 'a list \<Rightarrow> 's \<Rightarrow> bool \<times> 's" where
  "arraySome f [] s = (False, s)"
| "arraySome f (x # xs) s =
     (case f x s of (b, s') \<Rightarrow> if b then (True, s') else arraySome f xs s')"

fun arrayFilter :: "('a \<Rightarrow> 's \<Rightarrow> bool \<times> 's) \<Rightarrow> 'a list \<Rightarrow> 's \<Rightarrow> 'a list \<times> 's" where
  "arrayFilter f [] s = ([], s)"
| "arrayFilter f (x # xs) s =
     (case f x s of (b, s') \<Rightarrow>
        (case arrayFilter f xs s' of (ys, s'') \<Rightarrow> (if b then x # ys else ys, s'')))"

text \<open>The body of the \<^verbatim>\<open>try\<close> block: look the term up in the cache, compile and
  store it when it is absent, and test the process name. Compiling may raise.\<close>

definition regexTry ::
  "host \<Rightarrow> string \<Rightarrow> string \<Rightarrow> (string \<Rightarrow> regexp option) \<Rightarrow>
     (exn + bool) \<times> (string \<Rightarrow> regexp option)" where
  "regexTry h term nm cache =
     (case cache term of
        Some regex \<Rightarrow> (Inr (regex nm), cache)
      | None \<Rightarrow>
          (case regExp h term ''i'' of
             None \<Rightarrow> (Inl SyntaxError, cache)
           | Some regex \<Rightarrow> (Inr (regex nm), cache(term \<mapsto> regex))))"

text \<open>The callback of \<^verbatim>\<open>terms.some\<close>: the three substring tests, then the regular
  expression inside \<^verbatim>\<open>try\<close>, whose \<^verbatim>\<open>catch\<close> answers false.\<close>

definition termMatches ::
  "host \<Rightarrow> process \<Rightarrow> string \<Rightarrow> string \<Rightarrow> string \<Rightarrow> string \<Rightarrow>
     (string \<Rightarrow> regexp option) \<Rightarrow> bool \<times> (string \<Rightarrow> regexp option)" where
  "termMatches h p processNameLower processCommandLower processPidString term cache =
     (let termLower = toLowerCase h term
      in if str_includes processNameLower termLower \<or>
            str_includes processCommandLower termLower \<or>
            str_includes processPidString term
         then (True, cache)
         else (case regexTry h term (name p) cache of
                 (Inr b, cache') \<Rightarrow> (b, cache')
               | (Inl e, cache') \<Rightarrow> (False, cache')))"

text \<open>The callback of \<^verbatim>\<open>processes.filter\<close>.\<close>

definition keepProcess ::
  "host \<Rightarrow> filters \<Rightarrow> string list \<Rightarrow> process \<Rightarrow>
     (string \<Rightarrow> regexp option) \<Rightarrow> bool \<times> (string \<Rightarrow> regexp option)" where
  "keepProcess h fs terms p cache =
     (if sc_enabled (status_f fs) \<and> length (sc_values (status_f fs)) > 0 \<and>
         status p \<notin> set (sc_values (status_f fs))
      then (False, cache)
      else if nc_enabled (cpu fs) \<and>
         \<not> compareValue (Num (cpu_usage p)) (nc_operator (cpu fs)) (nc_value (cpu fs))
      then (False, cache)
      else if nc_enabled (ram fs) \<and>
         \<not> compareValue (Num (memory_usage p / (1024 * 1024))) (nc_operator (ram fs))
             (nc_value (ram fs))
      then (False, cache)
      else if nc_enabled (runtime fs) \<and>
         \<not> compareValue (Num (run_time p / 60)) (nc_operator (runtime fs))
             (nc_value (runtime fs))
      then (False, cache)
      else if length terms = 0 then (True, cache)
      else
        (let processNameLower = toLowerCase h (name p);
             processCommandLower = toLowerCase h (command p);
             processPidString = numberToString (pid p)
         in arraySome
              (termMatches h p processNameLower processCommandLower processPidString)
              terms cache))"

text \<open>The search terms: none for the empty search string, otherwise the trimmed
  pieces between the commas.\<close>

definition searchTerms :: "host \<Rightarrow> string \<Rightarrow> string list" where
  "searchTerms h searchTerm =
     (if length searchTerm > 0 then map (trim h) (splitComma searchTerm) else [])"

text \<open>\<^verbatim>\<open>Object.values(filters).some((f) => f.enabled)\<close>.\<close>

definition anyEnabled :: "filters \<Rightarrow> bool" where
  "anyEnabled fs =
     (nc_enabled (cpu fs) \<or> nc_enabled (ram fs) \<or> nc_enabled (runtime fs) \<or>
      sc_enabled (status_f fs))"

text \<open>\<^verbatim>\<open>filterProcesses\<close> returns the address of the result and the store after the
  call. On the early return the result is the argument itself; otherwise
  \<^verbatim>\<open>filter\<close> allocates a new array.\<close>

definition filterProcesses ::
  "host \<Rightarrow> nat \<Rightarrow> string \<Rightarrow> filters \<Rightarrow> world \<Rightarrow> nat \<times> world" where
  "filterProcesses h processes searchTerm fs w =
     (if length searchTerm = 0 \<and> \<not> anyEnabled fs then (processes, w)
      else
        (let terms = searchTerms h searchTerm
         in (case arrayFilter (keepProcess h fs terms) (elems w processes) (regexCache w) of
               (kept, cache') \<Rightarrow> newArray kept (w\<lparr>regexCache := cache'\<rparr>))))"

section \<open>sortProcesses\<close>

text \<open>\<^verbatim>\<open>a[sortConfig.field]\<close>: the value of an attribute chosen by name is a number,
  a string or the pair of disk counters.\<close>

datatype fvalue = NumV real | StrV string | PairV real real

fun getField :: "process \<Rightarrow> field \<Rightarrow> fvalue" where
  "getField p Pid = NumV (of_int (pid p))"
| "getField p Name = StrV (name p)"
| "getField p Command = StrV (command p)"
| "getField p Status = StrV (status p)"
| "getField p Cpu_usage = NumV (cpu_usage p)"
| "getField p Memory_usage = NumV (memory_usage p)"
| "getField p Run_time = NumV (run_time p)"
| "getField p Disk_usage = PairV (fst (disk_usage p)) (snd (disk_usage p))"

text \<open>The casts of the comparator. Both values of one comparison come from the same
  attribute, so a cast is only ever applied to a value of its own kind; the other
  equations make the functions total.\<close>

fun pairRead :: "fvalue \<Rightarrow> real" where
  "pairRead (PairV r w) = r"
| "pairRead _ = 0"

fun pairWrite :: "fvalue \<Rightarrow> real" where
  "pairWrite (PairV r w) = w"
| "pairWrite _ = 0"

fun asString :: "fvalue \<Rightarrow> string" where
  "asString (StrV s) = s"
| "asString _ = []"

fun asNumber :: "fvalue \<Rightarrow> real" where
  "asNumber (NumV x) = x"
| "asNumber _ = 0"

fun isString :: "fvalue \<Rightarrow> bool" where
  "isString (StrV s) = True"
| "isString _ = False"

text \<open>The number the comparator returns; \<open>lc\<close> is the host's \<^verbatim>\<open>localeCompare\<close>.\<close>

definition compareFn ::
  "(string \<Rightarrow> string \<Rightarrow> real) \<Rightarrow> sortConfig \<Rightarrow> string set \<Rightarrow> process \<Rightarrow> process \<Rightarrow> real" where
  "compareFn lc cfg pinnedProcesses a b =
     (let aPin = (command a \<in> pinnedProcesses);
          bPin = (command b \<in> pinnedProcesses)
      in if aPin \<noteq> bPin then (if aPin then - 1 else 1)
         else
           (let dir = (if direction cfg = Asc then 1 else - 1);
                aValue = getField a (field cfg);
                bValue = getField b (field cfg)
            in if field cfg = Disk_usage then
                 (let aRead = pairRead aValue; aWrite = pairWrite aValue;
                      bRead = pairRead bValue; bWrite = pairWrite bValue;
                      totalReads = aRead + bRead;
                      totalWrites = aWrite + bWrite
                  in if totalWrites > totalReads * 1.5 then
                       (if aWrite \<noteq> bWrite then dir * (aWrite - bWrite)
                        else dir * (aRead - bRead))
                     else if totalReads > totalWrites * 1.5 then
                       (if aRead \<noteq> bRead then dir * (aRead - bRead)
                        else dir * (aWrite - bWrite))
                     else
                       (let aTotalDisk = aRead + aWrite;
                            bTotalDisk = bRead + bWrite
                        in if aTotalDisk \<noteq> bTotalDisk then dir * (aTotalDisk - bTotalDisk)
                           else
                             (let aMaxDisk = max aRead aWrite;
                                  bMaxDisk = max bRead bWrite
                              in dir * (aMaxDisk - bMaxDisk))))
               else if isString aValue then dir * lc (asString aValue) (asString bValue)
               else dir * (asNumber aValue - asNumber bValue)))"

text \<open>The comparator as the sort calls it: before it compares, it records the pin
  status of both commands in \<^verbatim>\<open>isPinned\<close>.\<close>

definition sortCallback ::
  "(string \<Rightarrow> string \<Rightarrow> real) \<Rightarrow> sortConfig \<Rightarrow> string set \<Rightarrow> process \<Rightarrow> process \<Rightarrow>
     (string \<Rightarrow> bool option) \<Rightarrow> real \<times> (string \<Rightarrow> bool option)" where
  "sortCallback lc cfg pinnedProcesses a b m =
     (compareFn lc cfg pinnedProcesses a b,
      (m(command a \<mapsto> (command a \<in> pinnedProcesses)))
        (command b \<mapsto> (command b \<in> pinnedProcesses)))"

text \<open>\<^verbatim>\<open>sortProcesses\<close> clears \<^verbatim>\<open>isPinned\<close>, copies the argument into a new array
  (\<^verbatim>\<open>[...processes]\<close>), has the host sort the copy in place and returns its address.\<close>

definition sortProcesses ::
  "host \<Rightarrow> nat \<Rightarrow> sortConfig \<Rightarrow> string set \<Rightarrow> world \<Rightarrow> nat \<times> world" where
  "sortProcesses h processes cfg pinnedProcesses w =
     (let w1 = w\<lparr>isPinned := Map.empty\<rparr>
      in (case newArray (elems w1 processes) w1 of
            (copy, w2) \<Rightarrow>
              (case arraySort h (sortCallback (localeCompare h) cfg pinnedProcesses)
                      (elems w2 copy) (isPinned w2) of
                 (sortedCopy, m) \<Rightarrow>
                   (copy, w2\<lparr>arrays := (arrays w2)(copy \<mapsto> sortedCopy), isPinned := m\<rparr>))))"

section \<open>What the filter keeps\<close>

text \<open>
  The statements about \<^verbatim>\<open>filterProcesses\<close> are phrased with the predicates of this
  section, which follow the wording of the specification and not the control flow of
  the code: a record passes the status clause, the numeric clauses and the search.
  A cache of compiled patterns is coherent with the host when each entry is what the
  host compiles its key to with the flag \<^verbatim>\<open>i\<close>. The cache starts empty and
  \<^verbatim>\<open>filterProcesses\<close> is its only writer, so every cache the program reaches is
  coherent.
\<close>

definition coherent :: "host \<Rightarrow> (string \<Rightarrow> regexp option) \<Rightarrow> bool" where
  "coherent h cache = (\<forall>t m. cache t = Some m \<longrightarrow> regExp h t ''i'' = Some m)"

definition statusPasses :: "filters \<Rightarrow> process \<Rightarrow> bool" where
  "statusPasses fs p =
     (sc_enabled (status_f fs) \<and> sc_values (status_f fs) \<noteq> [] \<longrightarrow>
        status p \<in> set (sc_values (status_f fs)))"

definition clausePasses :: "numericClause \<Rightarrow> real \<Rightarrow> bool" where
  "clausePasses c x = (nc_enabled c \<longrightarrow> compareValue (Num x) (nc_operator c) (nc_value c))"

definition numericPasses :: "filters \<Rightarrow> process \<Rightarrow> bool" where
  "numericPasses fs p =
     (clausePasses (cpu fs) (cpu_usage p) \<and>
      clausePasses (ram fs) (memory_usage p / (1024 * 1024)) \<and>
      clausePasses (runtime fs) (run_time p / 60))"

definition regexMatches :: "host \<Rightarrow> string \<Rightarrow> string \<Rightarrow> bool" where
  "regexMatches h t nm = (case regExp h t ''i'' of None \<Rightarrow> False | Some regex \<Rightarrow> regex nm)"

definition termMatch :: "host \<Rightarrow> process \<Rightarrow> string \<Rightarrow> bool" where
  "termMatch h p t =
     (sublist (toLowerCase h t) (toLowerCase h (name p)) \<or>
      sublist (toLowerCase h t) (toLowerCase h (command p)) \<or>
      sublist t (numberToString (pid p)) \<or>
      regexMatches h t (name p))"

definition passes :: "host \<Rightarrow> filters \<Rightarrow> string list \<Rightarrow> process \<Rightarrow> bool" where
  "passes h fs terms p =
     (statusPasses fs p \<and> numericPasses fs p \<and>
      (terms = [] \<or> (\<exists>t \<in> set terms. termMatch h p t)))"

text \<open>What the pieces of a split and the decimal string of a number are, said without
  the functions that compute them: joining the pieces with commas gives the string
  back, and the digits of a number read in base ten give the number back.\<close>

fun joinComma :: "string list \<Rightarrow> string" where
  "joinComma [] = []"
| "joinComma [t] = t"
| "joinComma (t # u # ts) = t @ CHR '','' # joinComma (u # ts)"

definition decimalValue :: "string \<Rightarrow> nat" where
  "decimalValue ds = foldl (\<lambda>n c. 10 * n + (of_char c - 48)) 0 ds"

section \<open>What the sort orders by\<close>

text \<open>
  The specification words the disk comparison as a classification of the compared pair
  followed by a lexicographic comparison of two keys. \<open>classify\<close> is that classification,
  \<open>lexBefore\<close> is "smaller by the first key, ties broken by the second", and
  \<open>ordersBy d v k l\<close> says that the sign of the comparator's number \<open>v\<close> is the one this
  order gives to the keys \<open>k\<close> and \<open>l\<close> in direction \<open>d\<close>: negative (first record first)
  exactly when \<open>k\<close> is before \<open>l\<close> in that direction, zero exactly when the keys are equal.
\<close>

datatype dominance = WriteDominant | ReadDominant | Balanced

definition classify :: "real \<times> real \<Rightarrow> real \<times> real \<Rightarrow> dominance" where
  "classify a b =
     (let totalReads = fst a + fst b; totalWrites = snd a + snd b
      in if totalWrites > totalReads * 1.5 then WriteDominant
         else if totalReads > totalWrites * 1.5 then ReadDominant
         else Balanced)"

definition lexBefore :: "real \<times> real \<Rightarrow> real \<times> real \<Rightarrow> bool" where
  "lexBefore k l = (fst k < fst l \<or> (fst k = fst l \<and> snd k < snd l))"

definition ordersBy :: "direction \<Rightarrow> real \<Rightarrow> real \<times> real \<Rightarrow> real \<times> real \<Rightarrow> bool" where
  "ordersBy d v k l =
     (case d of
        Asc \<Rightarrow> (v < 0) = lexBefore k l \<and> (v = 0) = (k = l) \<and> (0 < v) = lexBefore l k
      | Desc \<Rightarrow> (v < 0) = lexBefore l k \<and> (v = 0) = (k = l) \<and> (0 < v) = lexBefore k l)"


text \<open>
  What is asked of the host's sort. It returns its argument rearranged
  (\<open>sortPermutes\<close>); this is all the language promises for every comparator. And no
  two neighbours of its result contradict the comparator (\<open>sortOrdersNeighbours\<close>):
  of an element \<open>x\<close> directly followed by \<open>y\<close>, some call of the comparator either
  answered for \<open>(x, y)\<close> a number that is not positive or answered for \<open>(y, x)\<close> a
  number that is not negative. For a comparator that is a consistent ordering this is
  what being sorted means; for any comparator it holds of the sorts that build their
  result by inserting and merging, three of which are defined and verified below.
\<close>

definition sortPermutes :: "('a, 's) sortEngine \<Rightarrow> bool" where
  "sortPermutes srt = (\<forall>cmp xs s. mset (fst (srt cmp xs s)) = mset xs)"

definition inOrder :: "('a \<Rightarrow> 'a \<Rightarrow> 's \<Rightarrow> real \<times> 's) \<Rightarrow> 'a \<Rightarrow> 'a \<Rightarrow> bool" where
  "inOrder cmp x y = ((\<exists>s. fst (cmp x y s) \<le> 0) \<or> (\<exists>s. 0 \<le> fst (cmp y x s)))"

definition sortOrdersNeighbours :: "('a, 's) sortEngine \<Rightarrow> bool" where
  "sortOrdersNeighbours srt = (\<forall>cmp xs s. successively (inOrder cmp) (fst (srt cmp xs s)))"

section \<open>Sorts of three engines\<close>

text \<open>
  Three sorts that hosts perform. Each is shown below to rearrange its argument and to
  leave no two neighbours of its result in an order the comparator contradicts, for
  every comparator, consistent or not. (TimSort on an array at least as long as its
  minimum run length builds several runs as the second sort builds its one run, and
  merges them; that merge is not among the sorts defined here.)
\<close>

text \<open>
  A stable insertion sort: an element goes before the first element it does not sort
  after (the comparator's number is at most zero).
\<close>

fun insertSorted ::
  "('a \<Rightarrow> 'a \<Rightarrow> 's \<Rightarrow> real \<times> 's) \<Rightarrow> 'a \<Rightarrow> 'a list \<Rightarrow> 's \<Rightarrow> 'a list \<times> 's" where
  "insertSorted cmp x [] s = ([x], s)"
| "insertSorted cmp x (y # ys) s =
     (case cmp x y s of (v, s') \<Rightarrow>
        if v \<le> 0 then (x # y # ys, s')
        else (case insertSorted cmp x ys s' of (zs, s'') \<Rightarrow> (y # zs, s'')))"

fun insertionSort :: "('a, 's) sortEngine" where
  "insertionSort cmp [] s = ([], s)"
| "insertionSort cmp (x # xs) s =
     (case insertionSort cmp xs s of (ys, s') \<Rightarrow> insertSorted cmp x ys s')"

text \<open>
  The sort that TimSort performs on an array shorter than its minimum run length. It
  takes the longest run at the start of the array, comparing each element with the
  one before it: the run is descending when the second element sorts strictly before
  the first and goes on while each element sorts strictly before its predecessor;
  otherwise it is ascending and goes on while no element sorts strictly before its
  predecessor. A descending run is reversed. Each remaining element is then inserted
  into the run at the place a binary search finds for it.
\<close>

fun takeRun ::
  "bool \<Rightarrow> ('a \<Rightarrow> 'a \<Rightarrow> 's \<Rightarrow> real \<times> 's) \<Rightarrow> 'a \<Rightarrow> 'a list \<Rightarrow> 's \<Rightarrow> 'a list \<times> 'a list \<times> 's" where
  "takeRun descending cmp previous [] s = ([], [], s)"
| "takeRun descending cmp previous (x # xs) s =
     (case cmp x previous s of (order, s') \<Rightarrow>
        if (if descending then 0 \<le> order else order < 0) then ([], x # xs, s')
        else (case takeRun descending cmp x xs s' of
                (run, rest, s'') \<Rightarrow> (x # run, rest, s'')))"

fun countAndMakeRun ::
  "('a \<Rightarrow> 'a \<Rightarrow> 's \<Rightarrow> real \<times> 's) \<Rightarrow> 'a list \<Rightarrow> 's \<Rightarrow> 'a list \<times> 'a list \<times> 's" where
  "countAndMakeRun cmp [] s = ([], [], s)"
| "countAndMakeRun cmp [x] s = ([x], [], s)"
| "countAndMakeRun cmp (x # y # zs) s =
     (case cmp y x s of (order, s') \<Rightarrow>
        (case takeRun (order < 0) cmp y zs s' of
           (run, rest, s'') \<Rightarrow>
             (if order < 0 then rev (x # y # run) else x # y # run, rest, s'')))"

function binarySearch ::
  "('a \<Rightarrow> 'a \<Rightarrow> 's \<Rightarrow> real \<times> 's) \<Rightarrow> 'a \<Rightarrow> 'a list \<Rightarrow> nat \<Rightarrow> nat \<Rightarrow> 's \<Rightarrow> nat \<times> 's" where
  "binarySearch cmp pivot run left right s =
     (if left < right then
        (let mid = left + (right - left) div 2
         in (case cmp pivot (run ! mid) s of (order, s') \<Rightarrow>
               if order < 0 then binarySearch cmp pivot run left mid s'
               else binarySearch cmp pivot run (mid + 1) right s'))
      else (left, s))"
  by pat_completeness auto
termination
  by (relation "measure (\<lambda>(cmp, pivot, run, left, right, s). right - left)") auto

declare binarySearch.simps [simp del]

fun binaryInsertionSort ::
  "('a \<Rightarrow> 'a \<Rightarrow> 's \<Rightarrow> real \<times> 's) \<Rightarrow> 'a list \<Rightarrow> 'a list \<Rightarrow> 's \<Rightarrow> 'a list \<times> 's" where
  "binaryInsertionSort cmp run [] s = (run, s)"
| "binaryInsertionSort cmp run (pivot # rest) s =
     (case binarySearch cmp pivot run 0 (length run) s of
        (left, s') \<Rightarrow>
          binaryInsertionSort cmp (take left run @ pivot # drop left run) rest s')"

definition shortTimSort :: "('a, 's) sortEngine" where
  "shortTimSort cmp xs s =
     (case countAndMakeRun cmp xs s of
        (run, rest, s') \<Rightarrow> binaryInsertionSort cmp run rest s')"

text \<open>
  A bottom-up merge sort: the elements are runs of length one, and neighbouring runs
  are merged pairwise, round after round, until one run is left. A merge takes the
  head of the right run when it sorts strictly before the head of the left run, and
  the head of the left run otherwise.
\<close>

fun mergeRuns ::
  "('a \<Rightarrow> 'a \<Rightarrow> 's \<Rightarrow> real \<times> 's) \<Rightarrow> 'a list \<Rightarrow> 'a list \<Rightarrow> 's \<Rightarrow> 'a list \<times> 's" where
  "mergeRuns cmp [] bs s = (bs, s)"
| "mergeRuns cmp (a # as) [] s = (a # as, s)"
| "mergeRuns cmp (a # as) (b # bs) s =
     (case cmp b a s of (order, s') \<Rightarrow>
        if order < 0 then (case mergeRuns cmp (a # as) bs s' of (zs, s'') \<Rightarrow> (b # zs, s''))
        else (case mergeRuns cmp as (b # bs) s' of (zs, s'') \<Rightarrow> (a # zs, s'')))"

fun mergePairs ::
  "('a \<Rightarrow> 'a \<Rightarrow> 's \<Rightarrow> real \<times> 's) \<Rightarrow> 'a list list \<Rightarrow> 's \<Rightarrow> 'a list list \<times> 's" where
  "mergePairs cmp (as # bs # rs) s =
     (case mergeRuns cmp as bs s of (zs, s') \<Rightarrow>
        (case mergePairs cmp rs s' of (qs, s'') \<Rightarrow> (zs # qs, s'')))"
| "mergePairs cmp rs s = (rs, s)"

function mergeAll ::
  "('a \<Rightarrow> 'a \<Rightarrow> 's \<Rightarrow> real \<times> 's) \<Rightarrow> 'a list list \<Rightarrow> 's \<Rightarrow> 'a list \<times> 's" where
  "mergeAll cmp rs s =
     (if length rs \<le> 1 then (concat rs, s)
      else (case mergePairs cmp rs s of (qs, s') \<Rightarrow> mergeAll cmp qs s'))"
  by pat_completeness auto
termination
proof -
  have halves: "length (fst (mergePairs cmp ts t)) \<le> Suc (length ts) div 2"
    for cmp :: "'a \<Rightarrow> 'a \<Rightarrow> 's \<Rightarrow> real \<times> 's" and ts t
  proof (induction cmp ts t rule: mergePairs.induct)
    case (1 cmp as bs rs s)
    obtain zs u where m: "mergeRuns cmp as bs s = (zs, u)" by (cases "mergeRuns cmp as bs s")
    obtain ps v where p: "mergePairs cmp rs u = (ps, v)" by (cases "mergePairs cmp rs u")
    from "1.IH" [OF m [symmetric]] p have "length ps \<le> Suc (length rs) div 2" by simp
    with m p show ?case by simp
  qed simp_all
  show ?thesis
  proof (relation "measure (\<lambda>(cmp, rs, s). length rs)", goal_cases)
    case 1
    show ?case by simp
  next
    case (2 cmp rs s qs s')
    from halves [of cmp rs s] 2 have "length qs \<le> Suc (length rs) div 2"
      by (metis fst_conv)
    with 2 have "length qs < length rs" by linarith
    then show ?case by simp
  qed
qed

declare mergeAll.simps [simp del]

definition mergeSort :: "('a, 's) sortEngine" where
  "mergeSort cmp xs s = mergeAll cmp (map (\<lambda>x. [x]) xs) s"

section \<open>Example data\<close>

text \<open>The snapshot of three processes of the specification's end-to-end scenario, held
  in an array at address 0 of a store whose caches are empty, as they are when the
  module is loaded.\<close>

definition chrome :: process where
  "chrome = \<lparr>pid = 1, name = ''chrome'', command = ''/opt/Chrome'', status = ''Running'',
     cpu_usage = 70, memory_usage = 209715200, run_time = 120, disk_usage = (0, 0)\<rparr>"

definition idle :: process where
  "idle = \<lparr>pid = 2, name = ''idle'', command = ''idle'', status = ''Sleeping'',
     cpu_usage = 1, memory_usage = 10485760, run_time = 5, disk_usage = (0, 0)\<rparr>"

definition helper :: process where
  "helper = \<lparr>pid = 3, name = ''chromehelper'', command = ''/opt/helper'', status = ''Running'',
     cpu_usage = 40, memory_usage = 314572800, run_time = 3600, disk_usage = (0, 0)\<rparr>"

definition snapshot :: world where
  "snapshot = \<lparr>arrays = [0 \<mapsto> [chrome, idle, helper]], nextRef = 1,
     regexCache = Map.empty, isPinned = Map.empty\<rparr>"

text \<open>A host for the examples. Its case mapping lowers the letters A to Z and its
  trimming removes tab, line feed, vertical tab, form feed, carriage return and
  space at both ends (a real host does more on text outside ASCII). Its regular
  expressions reject the pattern \<^verbatim>\<open>[\<close> (an unterminated character class), read a
  pattern that starts with \<^verbatim>\<open>^\<close> as literal text to be found at the start of the
  string and every other pattern as literal text to be found anywhere in it, without
  regard to case under the flag \<^verbatim>\<open>i\<close>. Its string comparison calls all strings equal,
  and it sorts as TimSort sorts a short array.\<close>

definition asciiLowerChar :: "char \<Rightarrow> char" where
  "asciiLowerChar c =
     (let n = (of_char c :: nat)
      in if 65 \<le> n \<and> n \<le> 90 then char_of (n + 32) else c)"

definition asciiLower :: "string \<Rightarrow> string" where
  "asciiLower s = map asciiLowerChar s"

definition asciiBlank :: "char \<Rightarrow> bool" where
  "asciiBlank c = (let n = (of_char c :: nat) in (9 \<le> n \<and> n \<le> 13) \<or> n = 32)"

definition asciiTrim :: "string \<Rightarrow> string" where
  "asciiTrim s = rev (dropWhile asciiBlank (rev (dropWhile asciiBlank s)))"

definition literalRegExp :: "string \<Rightarrow> string \<Rightarrow> regexp option" where
  "literalRegExp t flags =
     (let fold = (if flags = ''i'' then asciiLower else (\<lambda>s. s))
      in if t = ''['' then None
         else (case t of
                 c # u \<Rightarrow>
                   if c = CHR ''^'' then Some (\<lambda>s. prefix (fold u) (fold s))
                   else Some (\<lambda>s. sublist (fold t) (fold s))
               | [] \<Rightarrow> Some (\<lambda>s. True)))"

definition exampleHost :: host where
  "exampleHost = \<lparr>toLowerCase = asciiLower, trim = asciiTrim, regExp = literalRegExp,
     localeCompare = (\<lambda>s t. 0), arraySort = shortTimSort\<rparr>"

text \<open>The filters as the overlay initialises them (every clause disabled), and the same
  with the clause \<^verbatim>\<open>cpu > 50\<close> enabled.\<close>

definition clauseOff :: numericClause where
  "clauseOff = \<lparr>nc_operator = ''>'', nc_value = Num 50, nc_enabled = False\<rparr>"

definition filtersOff :: filters where
  "filtersOff = \<lparr>cpu = clauseOff, ram = clauseOff, runtime = clauseOff,
     status_f = \<lparr>sc_values = [], sc_enabled = False\<rparr>\<rparr>"

definition cpuOver50 :: filters where
  "cpuOver50 = filtersOff\<lparr>cpu := \<lparr>nc_operator = ''>'', nc_value = Num 50, nc_enabled = True\<rparr>\<rparr>"

text \<open>Three processes whose disk counters (read, written) the disk comparator orders in
  a cycle, and the ascending sort by disk usage.\<close>

definition diskA :: process where
  "diskA = \<lparr>pid = 10, name = ''a'', command = ''a'', status = ''Running'',
     cpu_usage = 0, memory_usage = 0, run_time = 0, disk_usage = (0, 3)\<rparr>"

definition diskB :: process where
  "diskB = \<lparr>pid = 11, name = ''b'', command = ''b'', status = ''Running'',
     cpu_usage = 0, memory_usage = 0, run_time = 0, disk_usage = (1, 3)\<rparr>"

definition diskC :: process where
  "diskC = \<lparr>pid = 12, name = ''c'', command = ''c'', status = ''Running'',
     cpu_usage = 0, memory_usage = 0, run_time = 0, disk_usage = (3, 2)\<rparr>"

definition byDisk :: sortConfig where
  "byDisk = \<lparr>field = Disk_usage, direction = Asc\<rparr>"



section \<open>The three sorts do what is asked of a sort\<close>

text \<open>A call of the comparator that does not put the second of two elements strictly
  first licenses the first to stand before the second.\<close>

lemma inOrder_le: "fst (cmp x y s) \<le> 0 \<Longrightarrow> inOrder cmp x y"
  by (auto simp: inOrder_def)

lemma inOrder_ge: "0 \<le> fst (cmp y x s) \<Longrightarrow> inOrder cmp x y"
  by (auto simp: inOrder_def)

subsection \<open>Insertion sort\<close>

lemma insertSorted_mset: "mset (fst (insertSorted cmp x ys s)) = add_mset x (mset ys)"
proof (induction ys arbitrary: s)
  case Nil
  then show ?case by simp
next
  case (Cons y ys)
  obtain v s' where c: "cmp x y s = (v, s')" by (cases "cmp x y s")
  obtain zs s'' where r: "insertSorted cmp x ys s' = (zs, s'')"
    by (cases "insertSorted cmp x ys s'")
  from Cons.IH [of s'] r have "mset zs = add_mset x (mset ys)" by simp
  then show ?case using c r by simp
qed

lemma insertionSort_mset: "mset (fst (insertionSort cmp xs s)) = mset xs"
proof (induction xs arbitrary: s)
  case Nil
  then show ?case by simp
next
  case (Cons x xs)
  obtain ys s' where r: "insertionSort cmp xs s = (ys, s')" by (cases "insertionSort cmp xs s")
  from Cons.IH [of s] r have "mset ys = mset xs" by simp
  then show ?case using r insertSorted_mset [of cmp x ys s'] by simp
qed

lemma insertSorted_hd:
  "fst (insertSorted cmp x ys s) \<noteq> [] \<and>
   (hd (fst (insertSorted cmp x ys s)) = x \<or>
    (ys \<noteq> [] \<and> hd (fst (insertSorted cmp x ys s)) = hd ys))"
  by (cases ys) (auto split: prod.splits)

lemma insertSorted_successively:
  assumes "successively (inOrder cmp) ys"
  shows "successively (inOrder cmp) (fst (insertSorted cmp x ys s))"
  using assms
proof (induction ys arbitrary: s)
  case Nil
  then show ?case by simp
next
  case (Cons y ys)
  obtain v s' where c: "cmp x y s = (v, s')" by (cases "cmp x y s")
  obtain zs s'' where r: "insertSorted cmp x ys s' = (zs, s'')"
    by (cases "insertSorted cmp x ys s'")
  show ?case
  proof (cases "v \<le> 0")
    case True
    with c have "inOrder cmp x y" using inOrder_le [of cmp x y s] by simp
    with True c Cons.prems show ?thesis by simp
  next
    case False
    with c have yx: "inOrder cmp y x" using inOrder_ge [of cmp x y s] by simp
    from Cons.prems have ys: "successively (inOrder cmp) ys"
      by (auto simp: successively_Cons)
    from Cons.IH [OF ys, of s'] r have zs: "successively (inOrder cmp) zs" by simp
    from insertSorted_hd [of cmp x ys s'] r
    have h: "zs \<noteq> [] \<and> (hd zs = x \<or> (ys \<noteq> [] \<and> hd zs = hd ys))" by simp
    have "inOrder cmp y (hd zs)"
    proof (cases "hd zs = x")
      case True
      with yx show ?thesis by simp
    next
      case False
      with h have "ys \<noteq> []" "hd zs = hd ys" by auto
      with Cons.prems show ?thesis by (auto simp: successively_Cons)
    qed
    with zs False c r show ?thesis by (simp add: successively_Cons)
  qed
qed

lemma insertionSort_successively: "successively (inOrder cmp) (fst (insertionSort cmp xs s))"
proof (induction xs arbitrary: s)
  case Nil
  then show ?case by simp
next
  case (Cons x xs)
  obtain ys s' where r: "insertionSort cmp xs s = (ys, s')" by (cases "insertionSort cmp xs s")
  from Cons.IH [of s] r have "successively (inOrder cmp) ys" by simp
  from insertSorted_successively [OF this, of x s'] r show ?case by simp
qed

lemma insertionSort_ok: "sortPermutes insertionSort" "sortOrdersNeighbours insertionSort"
  by (simp_all add: sortPermutes_def sortOrdersNeighbours_def insertionSort_mset
      insertionSort_successively)

subsection \<open>TimSort on a short array\<close>

lemma takeRun_parts:
  "fst (takeRun d cmp prev xs s) @ fst (snd (takeRun d cmp prev xs s)) = xs"
proof (induction xs arbitrary: prev s)
  case Nil
  then show ?case by simp
next
  case (Cons x xs)
  obtain order s' where c: "cmp x prev s = (order, s')" by (cases "cmp x prev s")
  obtain run rest s'' where r: "takeRun d cmp x xs s' = (run, rest, s'')"
    by (cases "takeRun d cmp x xs s'") auto
  from Cons.IH [of x s'] r have "run @ rest = xs" by simp
  with c r show ?case by simp
qed

lemma takeRun_ascending:
  "successively (inOrder cmp) (prev # fst (takeRun False cmp prev xs s))"
proof (induction xs arbitrary: prev s)
  case Nil
  then show ?case by simp
next
  case (Cons x xs)
  obtain order s' where c: "cmp x prev s = (order, s')" by (cases "cmp x prev s")
  obtain run rest s'' where r: "takeRun False cmp x xs s' = (run, rest, s'')"
    by (cases "takeRun False cmp x xs s'") auto
  from Cons.IH [of x s'] r have run: "successively (inOrder cmp) (x # run)" by simp
  show ?case
  proof (cases "order < 0")
    case True
    with c show ?thesis by simp
  next
    case False
    with c have "inOrder cmp prev x" using inOrder_ge [of cmp x prev s] by simp
    with False c r run show ?thesis by simp
  qed
qed

lemma takeRun_descending:
  "successively (\<lambda>a b. inOrder cmp b a) (prev # fst (takeRun True cmp prev xs s))"
proof (induction xs arbitrary: prev s)
  case Nil
  then show ?case by simp
next
  case (Cons x xs)
  obtain order s' where c: "cmp x prev s = (order, s')" by (cases "cmp x prev s")
  obtain run rest s'' where r: "takeRun True cmp x xs s' = (run, rest, s'')"
    by (cases "takeRun True cmp x xs s'") auto
  from Cons.IH [of x s'] r have run: "successively (\<lambda>a b. inOrder cmp b a) (x # run)" by simp
  show ?case
  proof (cases "0 \<le> order")
    case True
    with c show ?thesis by simp
  next
    case False
    with c have "inOrder cmp x prev" using inOrder_le [of cmp x prev s] by simp
    with False c r run show ?thesis by simp
  qed
qed

lemma countAndMakeRun_parts:
  "mset (fst (countAndMakeRun cmp xs s)) + mset (fst (snd (countAndMakeRun cmp xs s))) = mset xs"
proof -
  consider "xs = []" | x where "xs = [x]" | x y zs where "xs = x # y # zs"
    by (cases xs rule: remdups_adj.cases) auto
  then show ?thesis
  proof cases
    case 1
    then show ?thesis by simp
  next
    case 2
    then show ?thesis by auto
  next
    case xs: 3
  obtain order s' where c: "cmp y x s = (order, s')" by (cases "cmp y x s")
  obtain run rest s'' where r: "takeRun (order < 0) cmp y zs s' = (run, rest, s'')"
    by (cases "takeRun (order < 0) cmp y zs s'") auto
  from takeRun_parts [of "order < 0" cmp y zs s'] r have "run @ rest = zs" by simp
  then have "mset run + mset rest = mset zs" by (metis mset_append)
  with xs c r show ?thesis by (auto simp: ac_simps)
qed
qed

lemma countAndMakeRun_successively:
  "successively (inOrder cmp) (fst (countAndMakeRun cmp xs s))"
proof -
  consider "xs = []" | x where "xs = [x]" | x y zs where "xs = x # y # zs"
    by (cases xs rule: remdups_adj.cases) auto
  then show ?thesis
  proof cases
    case 1
    then show ?thesis by simp
  next
    case 2
    then show ?thesis by auto
  next
    case xs: 3
  obtain order s' where c: "cmp y x s = (order, s')" by (cases "cmp y x s")
  obtain run rest s'' where r: "takeRun (order < 0) cmp y zs s' = (run, rest, s'')"
    by (cases "takeRun (order < 0) cmp y zs s'") auto
  show ?thesis
  proof (cases "order < 0")
    case True
    with c have "inOrder cmp y x" using inOrder_le [of cmp y x s] by simp
    moreover from takeRun_descending [of cmp y zs s'] r True
    have "successively (\<lambda>a b. inOrder cmp b a) (y # run)" by simp
    ultimately have "successively (\<lambda>a b. inOrder cmp b a) (x # y # run)" by simp
    then have "successively (inOrder cmp) (rev (x # y # run))"
      by (simp only: successively_rev)
    with xs c r True show ?thesis by simp
  next
    case False
    with c have "inOrder cmp x y" using inOrder_ge [of cmp y x s] by simp
    moreover from takeRun_ascending [of cmp y zs s'] r False
    have "successively (inOrder cmp) (y # run)" by simp
    ultimately have "successively (inOrder cmp) (x # y # run)" by simp
    with xs c r False show ?thesis by simp
  qed
qed
qed

lemma binarySearch_place:
  assumes "left \<le> right"
    and "left = 0 \<or> inOrder cmp (run ! (left - 1)) pivot"
    and "right = n \<or> inOrder cmp pivot (run ! right)"
    and "right \<le> n"
  shows "fst (binarySearch cmp pivot run left right s) \<le> n \<and>
         (fst (binarySearch cmp pivot run left right s) = 0 \<or>
            inOrder cmp (run ! (fst (binarySearch cmp pivot run left right s) - 1)) pivot) \<and>
         (fst (binarySearch cmp pivot run left right s) = n \<or>
            inOrder cmp pivot (run ! fst (binarySearch cmp pivot run left right s)))"
  using assms
proof (induction cmp pivot run left right s rule: binarySearch.induct)
  case (1 cmp pivot run left right s)
  show ?case
  proof (cases "left < right")
    case False
    with "1.prems" have "left = right" by simp
    with "1.prems" show ?thesis by (simp add: binarySearch.simps)
  next
    case True
    define mid where "mid = left + (right - left) div 2"
    from True have mid: "left \<le> mid" "mid < right" by (simp_all add: mid_def)
    obtain order s' where c: "cmp pivot (run ! mid) s = (order, s')"
      by (cases "cmp pivot (run ! mid) s")
    show ?thesis
    proof (cases "order < 0")
      case neg: True
      with c have io: "inOrder cmp pivot (run ! mid)"
        using inOrder_le [of cmp pivot "run ! mid" s] by simp
      have "binarySearch cmp pivot run left right s = binarySearch cmp pivot run left mid s'"
        using True c neg by (subst binarySearch.simps) (simp add: mid_def Let_def)
      moreover from "1.IH"(1) [OF True mid_def c [symmetric] neg] mid "1.prems" io
      have "fst (binarySearch cmp pivot run left mid s') \<le> n \<and>
         (fst (binarySearch cmp pivot run left mid s') = 0 \<or>
            inOrder cmp (run ! (fst (binarySearch cmp pivot run left mid s') - 1)) pivot) \<and>
         (fst (binarySearch cmp pivot run left mid s') = n \<or>
            inOrder cmp pivot (run ! fst (binarySearch cmp pivot run left mid s')))"
        by simp
      ultimately show ?thesis by simp
    next
      case nonneg: False
      with c have io: "inOrder cmp (run ! mid) pivot"
        using inOrder_ge [of cmp pivot "run ! mid" s] by simp
      have "binarySearch cmp pivot run left right s = binarySearch cmp pivot run (mid + 1) right s'"
        using True c nonneg by (subst binarySearch.simps) (simp add: mid_def Let_def)
      moreover from "1.IH"(2) [OF True mid_def c [symmetric] nonneg] mid "1.prems" io
      have "fst (binarySearch cmp pivot run (mid + 1) right s') \<le> n \<and>
         (fst (binarySearch cmp pivot run (mid + 1) right s') = 0 \<or>
            inOrder cmp (run ! (fst (binarySearch cmp pivot run (mid + 1) right s') - 1)) pivot) \<and>
         (fst (binarySearch cmp pivot run (mid + 1) right s') = n \<or>
            inOrder cmp pivot (run ! fst (binarySearch cmp pivot run (mid + 1) right s')))"
        by simp
      ultimately show ?thesis by simp
    qed
  qed
qed

lemma successively_insert_at:
  assumes "successively P run" and "k \<le> length run"
    and "k = 0 \<or> P (run ! (k - 1)) x"
    and "k = length run \<or> P x (run ! k)"
  shows "successively P (take k run @ x # drop k run)"
proof -
  from assms(1) have "successively P (take k run @ drop k run)" by simp
  then have t: "successively P (take k run)" and d: "successively P (drop k run)"
    unfolding successively_append_iff by blast+
  have l: "take k run = [] \<or> P (last (take k run)) x"
  proof (cases "k = 0")
    case False
    with assms(2) have ne: "take k run \<noteq> []" by auto
    from False assms(2) have "length (take k run) = k" "k - 1 < k" by simp_all
    with ne have "last (take k run) = run ! (k - 1)"
      using last_conv_nth [OF ne] nth_take [of "k - 1" k run] by simp
    with ne False assms(3) show ?thesis by simp
  qed simp
  have r: "drop k run = [] \<or> P x (hd (drop k run))"
  proof (cases "k = length run")
    case False
    with assms(2,4) show ?thesis by (simp add: hd_drop_conv_nth)
  qed simp
  from d r have "successively P (x # drop k run)" by (auto simp: successively_Cons)
  with t l show ?thesis by (auto simp: successively_append_iff)
qed

lemma binaryInsertionSort_mset:
  "mset (fst (binaryInsertionSort cmp run rest s)) = mset run + mset rest"
proof (induction rest arbitrary: run s)
  case Nil
  then show ?case by simp
next
  case (Cons pivot rest)
  obtain k s' where b: "binarySearch cmp pivot run 0 (length run) s = (k, s')"
    by (cases "binarySearch cmp pivot run 0 (length run) s")
  have "mset (take k run @ pivot # drop k run) = add_mset pivot (mset run)"
    by (metis append_take_drop_id mset.simps(2) mset_append union_mset_add_mset_right)
  with Cons.IH [of "take k run @ pivot # drop k run" s'] b show ?case by simp
qed

lemma binaryInsertionSort_successively:
  assumes "successively (inOrder cmp) run"
  shows "successively (inOrder cmp) (fst (binaryInsertionSort cmp run rest s))"
  using assms
proof (induction rest arbitrary: run s)
  case Nil
  then show ?case by simp
next
  case (Cons pivot rest)
  obtain k s' where b: "binarySearch cmp pivot run 0 (length run) s = (k, s')"
    by (cases "binarySearch cmp pivot run 0 (length run) s")
  from binarySearch_place [of 0 "length run" cmp run pivot "length run" s] b
  have k: "k \<le> length run" "k = 0 \<or> inOrder cmp (run ! (k - 1)) pivot"
    "k = length run \<or> inOrder cmp pivot (run ! k)"
    by simp_all
  from successively_insert_at [OF Cons.prems k]
  have "successively (inOrder cmp) (take k run @ pivot # drop k run)" .
  from Cons.IH [OF this, of s'] b show ?case by simp
qed

lemma shortTimSort_mset: "mset (fst (shortTimSort cmp xs s)) = mset xs"
proof -
  obtain run rest s' where c: "countAndMakeRun cmp xs s = (run, rest, s')"
    by (cases "countAndMakeRun cmp xs s") auto
  from countAndMakeRun_parts [of cmp xs s] c have "mset run + mset rest = mset xs" by simp
  with c show ?thesis by (simp add: shortTimSort_def binaryInsertionSort_mset)
qed

lemma shortTimSort_successively: "successively (inOrder cmp) (fst (shortTimSort cmp xs s))"
proof -
  obtain run rest s' where c: "countAndMakeRun cmp xs s = (run, rest, s')"
    by (cases "countAndMakeRun cmp xs s") auto
  from countAndMakeRun_successively [of cmp xs s] c
  have "successively (inOrder cmp) run" by simp
  from binaryInsertionSort_successively [OF this, of rest s'] c show ?thesis
    by (simp add: shortTimSort_def)
qed

lemma shortTimSort_ok: "sortPermutes shortTimSort" "sortOrdersNeighbours shortTimSort"
  by (simp_all add: sortPermutes_def sortOrdersNeighbours_def shortTimSort_mset
      shortTimSort_successively)

subsection \<open>Merge sort\<close>

lemma mergeRuns_mset: "mset (fst (mergeRuns cmp as bs s)) = mset as + mset bs"
proof (induction cmp as bs s rule: mergeRuns.induct)
  case (3 cmp a as b bs s)
  obtain order s' where c: "cmp b a s = (order, s')" by (cases "cmp b a s")
  show ?case
  proof (cases "order < 0")
    case True
    obtain zs s'' where r: "mergeRuns cmp (a # as) bs s' = (zs, s'')"
      by (cases "mergeRuns cmp (a # as) bs s'")
    from "3.IH"(1) [OF c [symmetric] True] r have "mset zs = mset (a # as) + mset bs" by simp
    with c True r show ?thesis by simp
  next
    case False
    obtain zs s'' where r: "mergeRuns cmp as (b # bs) s' = (zs, s'')"
      by (cases "mergeRuns cmp as (b # bs) s'")
    from "3.IH"(2) [OF c [symmetric] False] r have "mset zs = mset as + mset (b # bs)" by simp
    with c False r show ?thesis by simp
  qed
qed simp_all

lemma mergeRuns_hd:
  "as \<noteq> [] \<or> bs \<noteq> [] \<Longrightarrow>
   fst (mergeRuns cmp as bs s) \<noteq> [] \<and>
   ((as \<noteq> [] \<and> hd (fst (mergeRuns cmp as bs s)) = hd as) \<or>
    (bs \<noteq> [] \<and> hd (fst (mergeRuns cmp as bs s)) = hd bs))"
  by (cases "(cmp, as, bs, s)" rule: mergeRuns.cases) (auto split: prod.splits)

lemma mergeRuns_successively:
  assumes "successively (inOrder cmp) as" and "successively (inOrder cmp) bs"
  shows "successively (inOrder cmp) (fst (mergeRuns cmp as bs s))"
  using assms
proof (induction cmp as bs s rule: mergeRuns.induct)
  case (3 cmp a as b bs s)
  obtain order s' where c: "cmp b a s = (order, s')" by (cases "cmp b a s")
  show ?case
  proof (cases "order < 0")
    case True
    obtain zs s'' where r: "mergeRuns cmp (a # as) bs s' = (zs, s'')"
      by (cases "mergeRuns cmp (a # as) bs s'")
    from True c have ba: "inOrder cmp b a" using inOrder_le [of cmp b a s] by simp
    from "3.prems" have bs: "successively (inOrder cmp) bs" by (auto simp: successively_Cons)
    from "3.IH"(1) [OF c [symmetric] True "3.prems"(1) bs] r
    have zs: "successively (inOrder cmp) zs" by simp
    from mergeRuns_hd [of "a # as" bs cmp s'] r
    have h: "zs \<noteq> [] \<and> (hd zs = a \<or> (bs \<noteq> [] \<and> hd zs = hd bs))" by simp
    have "inOrder cmp b (hd zs)"
    proof (cases "hd zs = a")
      case True
      with ba show ?thesis by simp
    next
      case False
      with h have "bs \<noteq> []" "hd zs = hd bs" by auto
      with "3.prems"(2) show ?thesis by (auto simp: successively_Cons)
    qed
    with zs c True r show ?thesis by (simp add: successively_Cons)
  next
    case False
    obtain zs s'' where r: "mergeRuns cmp as (b # bs) s' = (zs, s'')"
      by (cases "mergeRuns cmp as (b # bs) s'")
    from False c have ab: "inOrder cmp a b" using inOrder_ge [of cmp b a s] by simp
    from "3.prems" have as: "successively (inOrder cmp) as" by (auto simp: successively_Cons)
    from "3.IH"(2) [OF c [symmetric] False as "3.prems"(2)] r
    have zs: "successively (inOrder cmp) zs" by simp
    from mergeRuns_hd [of as "b # bs" cmp s'] r
    have h: "zs \<noteq> [] \<and> ((as \<noteq> [] \<and> hd zs = hd as) \<or> hd zs = b)" by simp
    have "inOrder cmp a (hd zs)"
    proof (cases "hd zs = b")
      case True
      with ab show ?thesis by simp
    next
      case False
      with h have "as \<noteq> []" "hd zs = hd as" by auto
      with "3.prems"(1) show ?thesis by (auto simp: successively_Cons)
    qed
    with zs c False r show ?thesis by (simp add: successively_Cons)
  qed
qed simp_all

lemma mergePairs_runs:
  "mset (concat (fst (mergePairs cmp rs s))) = mset (concat rs) \<and>
   ((\<forall>r \<in> set rs. successively (inOrder cmp) r) \<longrightarrow>
      (\<forall>r \<in> set (fst (mergePairs cmp rs s)). successively (inOrder cmp) r))"
proof (induction cmp rs s rule: mergePairs.induct)
  case (1 cmp as bs rs s)
  obtain zs u where m: "mergeRuns cmp as bs s = (zs, u)" by (cases "mergeRuns cmp as bs s")
  obtain ps v where p: "mergePairs cmp rs u = (ps, v)" by (cases "mergePairs cmp rs u")
  from mergeRuns_mset [of cmp as bs s] m have z1: "mset zs = mset as + mset bs" by simp
  from mergeRuns_successively [of cmp as bs s] m
  have z2: "successively (inOrder cmp) as \<Longrightarrow> successively (inOrder cmp) bs \<Longrightarrow>
      successively (inOrder cmp) zs" by simp
  from "1.IH" [OF m [symmetric]] p
  have "mset (concat ps) = mset (concat rs) \<and>
   ((\<forall>r \<in> set rs. successively (inOrder cmp) r) \<longrightarrow>
      (\<forall>r \<in> set ps. successively (inOrder cmp) r))" by simp
  with z1 z2 m p show ?case by auto
qed simp_all

lemma mergeAll_sorted:
  "mset (fst (mergeAll cmp rs s)) = mset (concat rs) \<and>
   ((\<forall>r \<in> set rs. successively (inOrder cmp) r) \<longrightarrow>
      successively (inOrder cmp) (fst (mergeAll cmp rs s)))"
proof (induction cmp rs s rule: mergeAll.induct)
  case (1 cmp rs s)
  show ?case
  proof (cases "length rs \<le> 1")
    case True
    then consider "rs = []" | r where "rs = [r]"
      by (cases rs rule: remdups_adj.cases) auto
    then show ?thesis
      by cases (simp_all add: mergeAll.simps)
  next
    case False
    obtain qs s' where p: "mergePairs cmp rs s = (qs, s')" by (cases "mergePairs cmp rs s")
    from mergePairs_runs [of cmp rs s] p
    have q: "mset (concat qs) = mset (concat rs)"
      "(\<forall>r \<in> set rs. successively (inOrder cmp) r) \<longrightarrow>
         (\<forall>r \<in> set qs. successively (inOrder cmp) r)" by simp_all
    have "mergeAll cmp rs s = mergeAll cmp qs s'"
      using False p by (subst mergeAll.simps) simp
    with "1.IH" [OF False p [symmetric]] q show ?thesis by simp
  qed
qed

lemma mergeSort_mset: "mset (fst (mergeSort cmp xs s)) = mset xs"
proof -
  have "concat (map (\<lambda>x. [x]) xs) = xs" by (induction xs) simp_all
  with mergeAll_sorted [of cmp "map (\<lambda>x. [x]) xs" s] show ?thesis
    by (simp add: mergeSort_def)
qed

lemma mergeSort_successively: "successively (inOrder cmp) (fst (mergeSort cmp xs s))"
  using mergeAll_sorted [of cmp "map (\<lambda>x. [x]) xs" s] by (auto simp: mergeSort_def)

lemma mergeSort_ok: "sortPermutes mergeSort" "sortOrdersNeighbours mergeSort"
  by (simp_all add: sortPermutes_def sortOrdersNeighbours_def mergeSort_mset
      mergeSort_successively)

section \<open>The filter callback computes the specified predicate\<close>

lemma coherent_empty: "coherent h Map.empty"
  by (simp add: coherent_def)

lemma regexTry_coherent:
  assumes "coherent h cache"
  shows "fst (regexTry h t nm cache) = (case regExp h t ''i'' of None \<Rightarrow> Inl SyntaxError | Some regex \<Rightarrow> Inr (regex nm))"
    and "coherent h (snd (regexTry h t nm cache))"
  using assms by (auto simp: regexTry_def coherent_def split: option.splits)

lemma termMatches_coherent:
  assumes "coherent h cache"
  shows "fst (termMatches h p (toLowerCase h (name p)) (toLowerCase h (command p))
            (numberToString (pid p)) t cache) = termMatch h p t"
    and "coherent h (snd (termMatches h p (toLowerCase h (name p)) (toLowerCase h (command p))
            (numberToString (pid p)) t cache))"
proof -
  obtain e c' where r: "regexTry h t (name p) cache = (e, c')"
    by (cases "regexTry h t (name p) cache")
  from regexTry_coherent [OF assms, of t "name p"] r
  have e: "e = (case regExp h t ''i'' of None \<Rightarrow> Inl SyntaxError | Some regex \<Rightarrow> Inr (regex (name p)))"
    and c: "coherent h c'" by simp_all
  show "fst (termMatches h p (toLowerCase h (name p)) (toLowerCase h (command p))
            (numberToString (pid p)) t cache) = termMatch h p t"
    using e r
    by (auto simp: termMatches_def termMatch_def regexMatches_def str_includes_def Let_def
        split: option.splits sum.splits)
  show "coherent h (snd (termMatches h p (toLowerCase h (name p)) (toLowerCase h (command p))
            (numberToString (pid p)) t cache))"
    using c r assms
    by (auto simp: termMatches_def Let_def split: sum.splits)
qed

lemma arraySome_coherent:
  assumes "\<And>x s. Inv s \<Longrightarrow> fst (f x s) = P x \<and> Inv (snd (f x s))" and "Inv s"
  shows "fst (arraySome f xs s) = (\<exists>x \<in> set xs. P x) \<and> Inv (snd (arraySome f xs s))"
  using assms(2)
proof (induction xs arbitrary: s)
  case Nil
  then show ?case by simp
next
  case (Cons x xs)
  obtain b s' where fx: "f x s = (b, s')" by (cases "f x s")
  with assms(1) [OF Cons.prems, of x] have b: "b = P x" and s': "Inv s'" by simp_all
  show ?case using fx b s' Cons.IH [OF s'] by simp
qed

lemma arrayFilter_coherent:
  assumes "\<And>x s. Inv s \<Longrightarrow> fst (f x s) = P x \<and> Inv (snd (f x s))" and "Inv s"
  shows "fst (arrayFilter f xs s) = filter P xs \<and> Inv (snd (arrayFilter f xs s))"
  using assms(2)
proof (induction xs arbitrary: s)
  case Nil
  then show ?case by simp
next
  case (Cons x xs)
  obtain b s' where fx: "f x s = (b, s')" by (cases "f x s")
  with assms(1) [OF Cons.prems, of x] have b: "b = P x" and s': "Inv s'" by simp_all
  obtain ys s'' where r: "arrayFilter f xs s' = (ys, s'')" by (cases "arrayFilter f xs s'")
  with Cons.IH [OF s'] have "ys = filter P xs" and "Inv s''" by simp_all
  then show ?case using fx b r by simp
qed

lemma keepProcess_coherent:
  assumes "coherent h cache"
  shows "fst (keepProcess h fs terms p cache) = passes h fs terms p \<and>
         coherent h (snd (keepProcess h fs terms p cache))"
proof -
  have some: "fst (arraySome (termMatches h p (toLowerCase h (name p)) (toLowerCase h (command p))
                  (numberToString (pid p))) terms cache) = (\<exists>t \<in> set terms. termMatch h p t) \<and>
        coherent h (snd (arraySome (termMatches h p (toLowerCase h (name p)) (toLowerCase h (command p))
                  (numberToString (pid p))) terms cache))"
    by (rule arraySome_coherent [where Inv = "coherent h"])
       (simp_all add: termMatches_coherent assms)
  show ?thesis
    using some assms
    by (auto simp: keepProcess_def passes_def statusPasses_def numericPasses_def
        clausePasses_def Let_def)
qed

lemma filterProcesses_contents:
  assumes "coherent h (regexCache w)" and "arrays w r = Some ps"
    and "filterProcesses h r q fs w = (r', w')"
  shows "arrays w' r' = Some (filter (passes h fs (searchTerms h q)) ps)"
    and "coherent h (regexCache w')"
proof -
  let ?ts = "searchTerms h q"
  show "arrays w' r' = Some (filter (passes h fs ?ts) ps)"
  proof (cases "length q = 0 \<and> \<not> anyEnabled fs")
    case True
    then have "\<And>p. passes h fs ?ts p"
      by (simp add: passes_def statusPasses_def numericPasses_def clausePasses_def
          anyEnabled_def searchTerms_def)
    then have "filter (passes h fs ?ts) ps = ps" by simp
    with True assms show ?thesis by (simp add: filterProcesses_def)
  next
    case False
    obtain kept c' where k: "arrayFilter (keepProcess h fs ?ts) ps (regexCache w) = (kept, c')"
      by (cases "arrayFilter (keepProcess h fs ?ts) ps (regexCache w)")
    have "fst (arrayFilter (keepProcess h fs ?ts) ps (regexCache w)) = filter (passes h fs ?ts) ps \<and>
          coherent h (snd (arrayFilter (keepProcess h fs ?ts) ps (regexCache w)))"
      by (rule arrayFilter_coherent [where Inv = "coherent h"])
         (simp_all add: keepProcess_coherent assms(1))
    with k have "kept = filter (passes h fs ?ts) ps" by simp
    with False k assms show ?thesis
      by (auto simp: filterProcesses_def elems_def newArray_def Let_def)
  qed
  show "coherent h (regexCache w')"
  proof (cases "length q = 0 \<and> \<not> anyEnabled fs")
    case True
    with assms show ?thesis by (simp add: filterProcesses_def)
  next
    case False
    obtain kept c' where k: "arrayFilter (keepProcess h fs ?ts) ps (regexCache w) = (kept, c')"
      by (cases "arrayFilter (keepProcess h fs ?ts) ps (regexCache w)")
    have "fst (arrayFilter (keepProcess h fs ?ts) ps (regexCache w)) = filter (passes h fs ?ts) ps \<and>
          coherent h (snd (arrayFilter (keepProcess h fs ?ts) ps (regexCache w)))"
      by (rule arrayFilter_coherent [where Inv = "coherent h"])
         (simp_all add: keepProcess_coherent assms(1))
    with k have "coherent h c'" by simp
    with False k assms show ?thesis
      by (auto simp: filterProcesses_def elems_def newArray_def Let_def)
  qed
qed

section \<open>Invariants of the store\<close>

text \<open>
  The two conditions the statements below assume of a store hold of every store the
  program reaches: allocation keeps every allocated address below the counter, and
  the cache of patterns starts empty (\<open>coherent_empty\<close>), is written by
  \<^verbatim>\<open>filterProcesses\<close> only, which keeps it coherent (\<open>filterProcesses_contents\<close>), and is
  left alone by \<^verbatim>\<open>sortProcesses\<close>.
\<close>

lemma newArray_wf: "wf_world w \<Longrightarrow> wf_world (snd (newArray ps w))"
  by (auto simp: wf_world_def newArray_def less_Suc_eq)

lemma wf_world_caches:
  "wf_world (w\<lparr>regexCache := c\<rparr>) = wf_world w" "wf_world (w\<lparr>isPinned := m\<rparr>) = wf_world w"
  by (simp_all add: wf_world_def)

lemma filterProcesses_wf:
  assumes "wf_world w"
  shows "wf_world (snd (filterProcesses h r q fs w))"
proof (cases "length q = 0 \<and> \<not> anyEnabled fs")
  case True
  with assms show ?thesis by (simp add: filterProcesses_def)
next
  case False
  obtain kept c' where
    k: "arrayFilter (keepProcess h fs (searchTerms h q)) (elems w r) (regexCache w) = (kept, c')"
    by (cases "arrayFilter (keepProcess h fs (searchTerms h q)) (elems w r) (regexCache w)")
  from assms have "wf_world (snd (newArray kept (w\<lparr>regexCache := c'\<rparr>)))"
    by (simp add: newArray_wf wf_world_caches)
  with k show ?thesis
    unfolding filterProcesses_def if_not_P [OF False] by (simp add: Let_def)
qed

lemma sortProcesses_wf:
  assumes "wf_world w"
  shows "wf_world (snd (sortProcesses h r cfg pinned w))"
  using assms
  by (auto simp: sortProcesses_def newArray_def wf_world_def less_Suc_eq Let_def split: prod.splits)

lemma sortProcesses_regexCache:
  "regexCache (snd (sortProcesses h r cfg pinned w)) = regexCache w"
  by (auto simp: sortProcesses_def newArray_def Let_def split: prod.splits)

section \<open>compareValue: the five operators and the default\<close>

text \<open>
  Claim C8. \<^verbatim>\<open>compareValue(value, operator, target)\<close> is \<open>value > target\<close> for
  \<^verbatim>\<open>">"\<close>, \<open>value < target\<close> for \<^verbatim>\<open>"<"\<close>, equality for \<^verbatim>\<open>"="\<close> and the
  non-strict comparisons for \<^verbatim>\<open>">="\<close> and \<^verbatim>\<open>"<="\<close>; with one of these five operators
  a comparison against \<open>NaN\<close> is false. For every other operator string it is true,
  so the filter callback answers for an enabled clause with such an operator exactly
  what it answers with that clause disabled: the clause rejects no record. No branch
  of \<open>compareValue\<close> raises.
\<close>

theorem compareValue_operators:
  "compareValue (Num a) ''>'' (Num b) = (b < a) \<and>
   compareValue (Num a) ''<'' (Num b) = (a < b) \<and>
   compareValue (Num a) ''='' (Num b) = (a = b) \<and>
   compareValue (Num a) ''>='' (Num b) = (b \<le> a) \<and>
   compareValue (Num a) ''<='' (Num b) = (a \<le> b) \<and>
   (op \<in> {''>'', ''<'', ''='', ''>='', ''<=''} \<longrightarrow>
      \<not> compareValue NaN op t \<and> \<not> compareValue v op NaN) \<and>
   (op \<notin> {''>'', ''<'', ''='', ''>='', ''<=''} \<longrightarrow>
      compareValue v op t \<and>
      keepProcess h (fs\<lparr>cpu := \<lparr>nc_operator = op, nc_value = t, nc_enabled = True\<rparr>\<rparr>) ts p c =
        keepProcess h (fs\<lparr>cpu := \<lparr>nc_operator = op, nc_value = t, nc_enabled = False\<rparr>\<rparr>) ts p c \<and>
      keepProcess h (fs\<lparr>ram := \<lparr>nc_operator = op, nc_value = t, nc_enabled = True\<rparr>\<rparr>) ts p c =
        keepProcess h (fs\<lparr>ram := \<lparr>nc_operator = op, nc_value = t, nc_enabled = False\<rparr>\<rparr>) ts p c \<and>
      keepProcess h (fs\<lparr>runtime := \<lparr>nc_operator = op, nc_value = t, nc_enabled = True\<rparr>\<rparr>) ts p c =
        keepProcess h (fs\<lparr>runtime := \<lparr>nc_operator = op, nc_value = t, nc_enabled = False\<rparr>\<rparr>) ts p c)"
proof -
  have five: "compareValue (Num a) ''>'' (Num b) = (b < a) \<and>
      compareValue (Num a) ''<'' (Num b) = (a < b) \<and>
      compareValue (Num a) ''='' (Num b) = (a = b) \<and>
      compareValue (Num a) ''>='' (Num b) = (b \<le> a) \<and>
      compareValue (Num a) ''<='' (Num b) = (a \<le> b)"
    by (simp add: compareValue_def)
  have nan: "\<not> compareValue NaN op t \<and> \<not> compareValue v op NaN"
    if "op \<in> {''>'', ''<'', ''='', ''>='', ''<=''}"
    using that by (cases v) (auto simp: compareValue_def)
  have other: "compareValue v' op t" if "op \<notin> {''>'', ''<'', ''='', ''>='', ''<=''}" for v'
    using that by (simp add: compareValue_def)
  have keep: "keepProcess h (fs\<lparr>cpu := \<lparr>nc_operator = op, nc_value = t, nc_enabled = True\<rparr>\<rparr>) ts p c =
        keepProcess h (fs\<lparr>cpu := \<lparr>nc_operator = op, nc_value = t, nc_enabled = False\<rparr>\<rparr>) ts p c \<and>
      keepProcess h (fs\<lparr>ram := \<lparr>nc_operator = op, nc_value = t, nc_enabled = True\<rparr>\<rparr>) ts p c =
        keepProcess h (fs\<lparr>ram := \<lparr>nc_operator = op, nc_value = t, nc_enabled = False\<rparr>\<rparr>) ts p c \<and>
      keepProcess h (fs\<lparr>runtime := \<lparr>nc_operator = op, nc_value = t, nc_enabled = True\<rparr>\<rparr>) ts p c =
        keepProcess h (fs\<lparr>runtime := \<lparr>nc_operator = op, nc_value = t, nc_enabled = False\<rparr>\<rparr>) ts p c"
    if "op \<notin> {''>'', ''<'', ''='', ''>='', ''<=''}"
    using other [OF that] by (simp add: keepProcess_def)
  from five nan other keep show ?thesis by blast
qed

theorem compareValue_operators_witness:
  "compareValue (Num 3) ''>'' (Num 2) \<and> \<not> compareValue (Num 3) ''<'' (Num 2) \<and>
   \<not> compareValue (Num 3) ''>'' NaN \<and>
   compareValue (Num 1) ''!='' (Num 1) \<and> compareValue (Num 1) ''=='' NaN"
  using compareValue_operators [of 3 2 "''!=''" "Num 1" "Num 1"]
    compareValue_operators [of 3 2 "''==''" NaN "Num 1"]
    compareValue_operators [of 3 2 "''>''" NaN "Num 3"]
  by simp

section \<open>filterProcesses: the early return\<close>

text \<open>
  Claim C5. With the empty search string and no enabled clause, \<^verbatim>\<open>filterProcesses\<close>
  returns its argument itself: the result is the address it was given and the store
  is the store before the call, so the array holds the same elements in the same
  order, nothing is allocated and the cache of patterns is not touched.
\<close>

theorem noop_filter_identity:
  assumes "\<not> anyEnabled fs"
  shows "filterProcesses h r [] fs w = (r, w)"
  using assms by (simp add: filterProcesses_def)

theorem noop_filter_identity_witness:
  "filterProcesses exampleHost 0 [] filtersOff snapshot = (0, snapshot) \<and>
   elems snapshot 0 = [chrome, idle, helper]"
  using noop_filter_identity [of filtersOff exampleHost 0 snapshot]
  by (simp add: anyEnabled_def filtersOff_def clauseOff_def elems_def snapshot_def)

section \<open>filterProcesses: the result is a subsequence\<close>

lemma arrayFilter_subseq: "subseq (fst (arrayFilter f xs s)) xs"
proof (induction xs arbitrary: s)
  case Nil
  then show ?case by simp
next
  case (Cons x xs)
  obtain b s' where fx: "f x s = (b, s')" by (cases "f x s")
  obtain ys s'' where r: "arrayFilter f xs s' = (ys, s'')" by (cases "arrayFilter f xs s'")
  from Cons.IH [of s'] r have "subseq ys xs" by simp
  then show ?case using fx r by auto
qed

text \<open>
  Claim C6. For every array, search string and filter configuration, the array that
  \<^verbatim>\<open>filterProcesses\<close> returns holds a subsequence of the elements of its argument:
  each element of the result is an element of the argument, in the same relative
  order, and none is repeated or made up. This holds for any state of the cache.
\<close>

theorem filter_subsequence:
  assumes "arrays w r = Some ps" and "filterProcesses h r q fs w = (r', w')"
  shows "\<exists>ys. arrays w' r' = Some ys \<and> subseq ys ps"
proof (cases "length q = 0 \<and> \<not> anyEnabled fs")
  case True
  with assms show ?thesis by (simp add: filterProcesses_def)
next
  case False
  obtain kept c' where
    k: "arrayFilter (keepProcess h fs (searchTerms h q)) ps (regexCache w) = (kept, c')"
    by (cases "arrayFilter (keepProcess h fs (searchTerms h q)) ps (regexCache w)")
  from arrayFilter_subseq [of "keepProcess h fs (searchTerms h q)" ps "regexCache w"] k
  have "subseq kept ps" by simp
  with False k assms show ?thesis
    by (auto simp: filterProcesses_def elems_def newArray_def Let_def)
qed

theorem filter_subsequence_witness:
  "arrays (snd (filterProcesses exampleHost 0 ''chrome'' cpuOver50 snapshot))
          (fst (filterProcesses exampleHost 0 ''chrome'' cpuOver50 snapshot)) = Some [chrome] \<and>
   (\<exists>ys. arrays (snd (filterProcesses exampleHost 0 ''chrome'' cpuOver50 snapshot))
           (fst (filterProcesses exampleHost 0 ''chrome'' cpuOver50 snapshot)) = Some ys \<and>
        subseq ys [chrome, idle, helper])"
proof -
  let ?R = "filterProcesses exampleHost 0 ''chrome'' cpuOver50 snapshot"
  have a: "arrays snapshot 0 = Some [chrome, idle, helper]" by (simp add: snapshot_def)
  have r: "?R = (fst ?R, snd ?R)" by simp
  have e: "arrays (snd ?R) (fst ?R) = Some [chrome]" by code_simp
  from filter_subsequence [OF a r] e show ?thesis by simp
qed

section \<open>filterProcesses: the search\<close>

text \<open>The pieces of a split, joined with commas, are the string that was split, and
  no piece holds a comma. The digits of a number are decimal digits (the characters
  48 to 57) whose value is the number, with no leading zero.\<close>

lemma splitComma_join:
  "joinComma (splitComma s) = s \<and> splitComma s \<noteq> [] \<and>
   (\<forall>t \<in> set (splitComma s). CHR '','' \<notin> set t)"
proof (induction s)
  case Nil
  then show ?case by simp
next
  case (Cons c cs)
  obtain t ts where sp: "splitComma cs = t # ts"
    using Cons.IH by (cases "splitComma cs") auto
  show ?case
  proof (cases "c = CHR '',''")
    case True
    with Cons.IH sp show ?thesis by simp
  next
    case False
    have "joinComma ((c # t) # ts) = c # joinComma (t # ts)" by (cases ts) simp_all
    with False Cons.IH sp show ?thesis by simp
  qed
qed

lemma digitChar_code:
  assumes "d < 10"
  shows "(of_char (digitChar d) :: nat) = 48 + d"
proof -
  from assms have "(48 + d) mod 256 = 48 + d" by simp
  then show ?thesis by (simp add: digitChar_def)
qed

lemma digitsOf_value:
  "decimalValue (digitsOf n) = n \<and>
   (\<forall>c \<in> set (digitsOf n). 48 \<le> (of_char c :: nat) \<and> (of_char c :: nat) \<le> 57) \<and>
   digitsOf n \<noteq> [] \<and> (n \<noteq> 0 \<longrightarrow> (of_char (hd (digitsOf n)) :: nat) \<noteq> 48)"
proof (induction n rule: digitsOf.induct)
  case (1 n)
  show ?case
  proof (cases "n < 10")
    case True
    then have d: "digitsOf n = [digitChar n]" by (simp add: digitsOf.simps)
    with digitChar_code [OF True] True show ?thesis by (simp add: decimalValue_def)
  next
    case False
    then have d: "digitsOf n = digitsOf (n div 10) @ [digitChar (n mod 10)]"
      by (subst digitsOf.simps) simp
    have m: "n mod 10 < 10" by simp
    from False have q: "n div 10 \<noteq> 0" by simp
    from "1.IH" [OF False] q
    have ih: "decimalValue (digitsOf (n div 10)) = n div 10"
      "\<forall>c \<in> set (digitsOf (n div 10)). 48 \<le> (of_char c :: nat) \<and> (of_char c :: nat) \<le> 57"
      "digitsOf (n div 10) \<noteq> []" "(of_char (hd (digitsOf (n div 10))) :: nat) \<noteq> 48"
      by simp_all
    have "decimalValue (digitsOf n) = 10 * (n div 10) + n mod 10"
      using ih(1) digitChar_code [OF m] by (simp add: d decimalValue_def)
    then have v: "decimalValue (digitsOf n) = n" by simp
    from ih(2) digitChar_code [OF m] m
    have s: "\<forall>c \<in> set (digitsOf n). 48 \<le> (of_char c :: nat) \<and> (of_char c :: nat) \<le> 57"
      by (auto simp: d)
    from ih(3,4) have "digitsOf n \<noteq> []" "(of_char (hd (digitsOf n)) :: nat) \<noteq> 48"
      by (simp_all add: d)
    with v s show ?thesis by simp
  qed
qed

text \<open>
  Claim C3. When the search string is not empty it yields at least one term (the
  trimmed pieces between its commas), and the array returned holds exactly the records
  of the argument, in order, that pass the status clause and the numeric clauses and
  that at least one term matches. A term matches a record when the lowercased term is
  part of the lowercased name, or of the lowercased command, or the term as typed is
  part of the decimal string of the pid, or the term compiled as a regular expression
  with the flag \<^verbatim>\<open>i\<close> matches the name. A term that does not compile matches by the
  three substring rules only: the \<^verbatim>\<open>SyntaxError\<close> is caught inside the callback of that
  term, the other terms and records are still evaluated, and the call returns a
  result (the model of \<^verbatim>\<open>filterProcesses\<close> has no error outcome because the only
  raising operation is the one inside \<^verbatim>\<open>try\<close>). Lowercasing, trimming and regular
  expressions are the host's, whatever they do.
\<close>

theorem search_any_term:
  assumes "coherent h (regexCache w)" and "arrays w r = Some ps" and "q \<noteq> []"
  shows "map (trim h) (splitComma q) \<noteq> [] \<and>
    (\<exists>r' w'. filterProcesses h r q fs w = (r', w') \<and>
       arrays w' r' =
         Some (filter (\<lambda>p. statusPasses fs p \<and> numericPasses fs p \<and>
                 (\<exists>t \<in> set (map (trim h) (splitComma q)). termMatch h p t)) ps)) \<and>
    (\<forall>p t. regExp h t ''i'' = None \<longrightarrow>
       termMatch h p t =
         (sublist (toLowerCase h t) (toLowerCase h (name p)) \<or>
          sublist (toLowerCase h t) (toLowerCase h (command p)) \<or>
          sublist t (numberToString (pid p))))"
proof -
  from assms(3) have ts: "searchTerms h q = map (trim h) (splitComma q)"
    by (simp add: searchTerms_def)
  from splitComma_join [of q] have ne: "map (trim h) (splitComma q) \<noteq> []" by simp
  obtain r' w' where res: "filterProcesses h r q fs w = (r', w')"
    by (cases "filterProcesses h r q fs w")
  from filterProcesses_contents(1) [OF assms(1,2) res]
  have "arrays w' r' = Some (filter (passes h fs (map (trim h) (splitComma q))) ps)"
    by (simp add: ts)
  moreover have "passes h fs (map (trim h) (splitComma q)) =
      (\<lambda>p. statusPasses fs p \<and> numericPasses fs p \<and>
           (\<exists>t \<in> set (map (trim h) (splitComma q)). termMatch h p t))"
    using ne by (auto simp: passes_def fun_eq_iff)
  ultimately have "arrays w' r' =
         Some (filter (\<lambda>p. statusPasses fs p \<and> numericPasses fs p \<and>
                 (\<exists>t \<in> set (map (trim h) (splitComma q)). termMatch h p t)) ps)" by simp
  with res ne show ?thesis by (simp add: termMatch_def regexMatches_def)
qed

text \<open>Two searches on the example host. The first, with the clause \<^verbatim>\<open>cpu > 50\<close>, has
  a term that does not compile and a term with blanks around it that is part of two
  commands once term and command are lowercased; one of the two records passes the
  clause. The second matches one record by its pid alone and another by the regular
  expression alone.\<close>

theorem search_any_term_witness:
  "(\<exists>r' w'. filterProcesses exampleHost 0 ''[, OPT/ '' cpuOver50 snapshot = (r', w') \<and>
      arrays w' r' = Some [chrome]) \<and>
   (\<exists>r' w'. filterProcesses exampleHost 0 ''3,^IDLE'' filtersOff snapshot = (r', w') \<and>
      arrays w' r' = Some [idle, helper])"
proof -
  have c: "coherent exampleHost (regexCache snapshot)"
    by (simp add: snapshot_def coherent_def)
  have a: "arrays snapshot 0 = Some [chrome, idle, helper]" by (simp add: snapshot_def)
  have q1: "''[, OPT/ '' \<noteq> []" and q2: "''3,^IDLE'' \<noteq> []" by simp_all
  have t1: "map (trim exampleHost) (splitComma ''[, OPT/ '') = [''['', ''OPT/'']"
    and t2: "map (trim exampleHost) (splitComma ''3,^IDLE'') = [''3'', ''^IDLE'']"
    by code_simp+
  have f1: "filter (\<lambda>p. statusPasses cpuOver50 p \<and> numericPasses cpuOver50 p \<and>
                 (\<exists>t \<in> set [''['', ''OPT/'']. termMatch exampleHost p t))
             [chrome, idle, helper] = [chrome]"
    by code_simp
  have f2: "filter (\<lambda>p. statusPasses filtersOff p \<and> numericPasses filtersOff p \<and>
                 (\<exists>t \<in> set [''3'', ''^IDLE'']. termMatch exampleHost p t))
             [chrome, idle, helper] = [idle, helper]"
    by code_simp
  from search_any_term [OF c a q1, of cpuOver50] search_any_term [OF c a q2, of filtersOff]
  show ?thesis
    unfolding t1 t2 f1 f2 by blast
qed

section \<open>filterProcesses: the numeric clauses\<close>

lemma arrayFilter_kept:
  assumes "x \<in> set (fst (arrayFilter f xs s))"
  shows "x \<in> set xs \<and> (\<exists>s0. fst (f x s0))"
  using assms
proof (induction xs arbitrary: s)
  case Nil
  then show ?case by simp
next
  case (Cons y ys)
  obtain b s' where fy: "f y s = (b, s')" by (cases "f y s")
  obtain zs s'' where r: "arrayFilter f ys s' = (zs, s'')" by (cases "arrayFilter f ys s'")
  from Cons.prems fy r have "(b \<and> x = y) \<or> x \<in> set zs" by (auto split: if_splits)
  then show ?case
  proof
    assume "b \<and> x = y"
    with fy have "fst (f x s)" by simp
    with \<open>b \<and> x = y\<close> show ?thesis by auto
  next
    assume "x \<in> set zs"
    with Cons.IH [of s'] r show ?thesis by simp
  qed
qed

lemma keepProcess_numeric:
  assumes "fst (keepProcess h fs ts p c)"
  shows "numericPasses fs p"
  using assms
  by (auto simp: keepProcess_def numericPasses_def clausePasses_def split: if_splits)

text \<open>
  Claim C4. Every record of the array returned satisfies each enabled numeric clause:
  \<open>compareValue\<close> holds of the derived value, the operator and the threshold of the
  clause, where the derived value is \<open>cpu_usage\<close> for the cpu clause,
  \<open>memory_usage / (1024 * 1024)\<close> for the ram clause and \<open>run_time / 60\<close> for the runtime
  clause. Conversely a record of the argument for which the comparison of an enabled
  clause fails is not in the result. This holds for any state of the cache.
\<close>

theorem numeric_clauses_hold:
  assumes "arrays w r = Some ps" and "filterProcesses h r q fs w = (r', w')"
  shows "(\<forall>p \<in> set (elems w' r').
            (nc_enabled (cpu fs) \<longrightarrow>
               compareValue (Num (cpu_usage p)) (nc_operator (cpu fs)) (nc_value (cpu fs))) \<and>
            (nc_enabled (ram fs) \<longrightarrow>
               compareValue (Num (memory_usage p / (1024 * 1024))) (nc_operator (ram fs))
                 (nc_value (ram fs))) \<and>
            (nc_enabled (runtime fs) \<longrightarrow>
               compareValue (Num (run_time p / 60)) (nc_operator (runtime fs))
                 (nc_value (runtime fs)))) \<and>
         (\<forall>p \<in> set ps.
            (nc_enabled (cpu fs) \<and>
               \<not> compareValue (Num (cpu_usage p)) (nc_operator (cpu fs)) (nc_value (cpu fs))) \<or>
            (nc_enabled (ram fs) \<and>
               \<not> compareValue (Num (memory_usage p / (1024 * 1024))) (nc_operator (ram fs))
                 (nc_value (ram fs))) \<or>
            (nc_enabled (runtime fs) \<and>
               \<not> compareValue (Num (run_time p / 60)) (nc_operator (runtime fs))
                 (nc_value (runtime fs)))
            \<longrightarrow> p \<notin> set (elems w' r'))"
proof -
  have kept: "numericPasses fs p" if "p \<in> set (elems w' r')" for p
  proof (cases "length q = 0 \<and> \<not> anyEnabled fs")
    case True
    then show ?thesis
      by (simp add: numericPasses_def clausePasses_def anyEnabled_def)
  next
    case False
    obtain ks c' where
      k: "arrayFilter (keepProcess h fs (searchTerms h q)) ps (regexCache w) = (ks, c')"
      by (cases "arrayFilter (keepProcess h fs (searchTerms h q)) ps (regexCache w)")
    with False assms have "elems w' r' = ks"
      by (auto simp: filterProcesses_def elems_def newArray_def Let_def)
    with that k have "p \<in> set (fst (arrayFilter (keepProcess h fs (searchTerms h q)) ps (regexCache w)))"
      by simp
    from arrayFilter_kept [OF this] obtain s0
      where "fst (keepProcess h fs (searchTerms h q) p s0)" by blast
    then show ?thesis by (rule keepProcess_numeric)
  qed
  then show ?thesis
    by (auto simp: numericPasses_def clausePasses_def)
qed

theorem numeric_clauses_hold_witness:
  "chrome \<in> set (elems (snd (filterProcesses exampleHost 0 [] cpuOver50 snapshot))
                    (fst (filterProcesses exampleHost 0 [] cpuOver50 snapshot))) \<and>
   compareValue (Num (cpu_usage chrome)) ''>'' (Num 50) \<and>
   helper \<notin> set (elems (snd (filterProcesses exampleHost 0 [] cpuOver50 snapshot))
                    (fst (filterProcesses exampleHost 0 [] cpuOver50 snapshot)))"
proof -
  let ?R = "filterProcesses exampleHost 0 [] cpuOver50 snapshot"
  have a: "arrays snapshot 0 = Some [chrome, idle, helper]" by (simp add: snapshot_def)
  have r: "?R = (fst ?R, snd ?R)" by simp
  have kept: "chrome \<in> set (elems (snd ?R) (fst ?R))" by code_simp
  have en: "nc_enabled (cpu cpuOver50)" "nc_operator (cpu cpuOver50) = ''>''"
    "nc_value (cpu cpuOver50) = Num 50"
    by (simp_all add: cpuOver50_def)
  have h: "helper \<in> set [chrome, idle, helper]" by simp
  have hc: "\<not> compareValue (Num (cpu_usage helper)) ''>'' (Num 50)"
    by (simp add: compareValue_def helper_def)
  from numeric_clauses_hold [OF a r] kept en h hc show ?thesis
    by metis
qed

section \<open>filterProcesses: an enabled status clause with no values\<close>

lemma keepProcess_empty_status:
  assumes "sc_values (status_f fs) = []"
  shows "keepProcess h (fs\<lparr>status_f := (status_f fs)\<lparr>sc_enabled := b\<rparr>\<rparr>) terms p c =
         keepProcess h fs terms p c"
  using assms by (simp add: keepProcess_def)

lemma arrayFilter_cong:
  assumes "\<And>x s. f x s = g x s"
  shows "arrayFilter f xs s = arrayFilter g xs s"
  using assms by (induction xs arbitrary: s) simp_all

lemma arrayFilter_all:
  assumes "\<And>x s. f x s = (True, s)"
  shows "arrayFilter f xs s = (xs, s)"
  using assms by (induction xs arbitrary: s) simp_all

text \<open>
  Claim C10. When the set of values of the status clause is empty, \<^verbatim>\<open>filterProcesses\<close>
  returns the same sequence of elements with the clause enabled as with the clause
  disabled, whatever the array, the search string and the other clauses are: the
  enabled clause with no values constrains nothing. (The two results can be different
  arrays: with every other clause disabled and the empty search string the disabled
  configuration takes the early return and the enabled one allocates a copy.)
\<close>

theorem empty_status_clause_ignored:
  assumes "sc_values (status_f fs) = []"
  shows "elems (snd (filterProcesses h r q (fs\<lparr>status_f := (status_f fs)\<lparr>sc_enabled := True\<rparr>\<rparr>) w))
           (fst (filterProcesses h r q (fs\<lparr>status_f := (status_f fs)\<lparr>sc_enabled := True\<rparr>\<rparr>) w)) =
         elems (snd (filterProcesses h r q (fs\<lparr>status_f := (status_f fs)\<lparr>sc_enabled := False\<rparr>\<rparr>) w))
           (fst (filterProcesses h r q (fs\<lparr>status_f := (status_f fs)\<lparr>sc_enabled := False\<rparr>\<rparr>) w))"
proof -
  let ?on = "fs\<lparr>status_f := (status_f fs)\<lparr>sc_enabled := True\<rparr>\<rparr>"
  let ?off = "fs\<lparr>status_f := (status_f fs)\<lparr>sc_enabled := False\<rparr>\<rparr>"
  have same: "arrayFilter (keepProcess h ?on ts) xs c = arrayFilter (keepProcess h ?off ts) xs c"
    for ts xs c
    by (rule arrayFilter_cong) (simp add: keepProcess_empty_status [OF assms])
  show ?thesis
  proof (cases "length q = 0 \<and> \<not> anyEnabled ?off")
    case True
    then have "keepProcess h ?on (searchTerms h q) p c = (True, c)" for p c
      using assms by (simp add: keepProcess_def anyEnabled_def searchTerms_def)
    then have "arrayFilter (keepProcess h ?on (searchTerms h q)) (elems w r) (regexCache w) =
        (elems w r, regexCache w)"
      by (rule arrayFilter_all)
    with True show ?thesis
      by (simp add: filterProcesses_def anyEnabled_def elems_def newArray_def)
  next
    case False
    then have on: "\<not> (length q = 0 \<and> \<not> anyEnabled ?on)"
      by (auto simp: anyEnabled_def)
    have "filterProcesses h r q ?on w = filterProcesses h r q ?off w"
      unfolding filterProcesses_def if_not_P [OF on] if_not_P [OF False] same ..
    then show ?thesis by simp
  qed
qed

theorem empty_status_clause_ignored_witness:
  "elems (snd (filterProcesses exampleHost 0 []
                 (filtersOff\<lparr>status_f := \<lparr>sc_values = [], sc_enabled = True\<rparr>\<rparr>) snapshot))
         (fst (filterProcesses exampleHost 0 []
                 (filtersOff\<lparr>status_f := \<lparr>sc_values = [], sc_enabled = True\<rparr>\<rparr>) snapshot))
     = [chrome, idle, helper] \<and>
   fst (filterProcesses exampleHost 0 []
          (filtersOff\<lparr>status_f := \<lparr>sc_values = [], sc_enabled = True\<rparr>\<rparr>) snapshot) = 1 \<and>
   filterProcesses exampleHost 0 [] filtersOff snapshot = (0, snapshot)"
proof -
  have v: "sc_values (status_f filtersOff) = []" by (simp add: filtersOff_def)
  have on: "filtersOff\<lparr>status_f := (status_f filtersOff)\<lparr>sc_enabled := True\<rparr>\<rparr> =
       filtersOff\<lparr>status_f := \<lparr>sc_values = [], sc_enabled = True\<rparr>\<rparr>"
    by (simp add: filtersOff_def)
  have off: "filtersOff\<lparr>status_f := (status_f filtersOff)\<lparr>sc_enabled := False\<rparr>\<rparr> = filtersOff"
    by (simp add: filtersOff_def)
  have fast: "filterProcesses exampleHost 0 [] filtersOff snapshot = (0, snapshot)"
    by (simp add: filterProcesses_def anyEnabled_def filtersOff_def clauseOff_def)
  have e: "elems snapshot 0 = [chrome, idle, helper]" by (simp add: elems_def snapshot_def)
  have n: "fst (filterProcesses exampleHost 0 []
                  (filtersOff\<lparr>status_f := \<lparr>sc_values = [], sc_enabled = True\<rparr>\<rparr>) snapshot) = 1"
    by code_simp
  from empty_status_clause_ignored [OF v, of exampleHost 0 "[]" snapshot] show ?thesis
    unfolding on off fast using e n by simp
qed

section \<open>sortProcesses: the disk comparator\<close>

text \<open>
  Claim C1. Let two records be compared under the sort field \<open>disk_usage\<close>, with disk
  pairs \<open>(aRead, aWrite)\<close> and \<open>(bRead, bWrite)\<close>; the field comparison is what compares
  them when both are pinned or neither is (a differing pin status is decided before
  any field is read). With \<open>totalReads = aRead + bRead\<close> and
  \<open>totalWrites = aWrite + bWrite\<close>: if \<open>totalWrites > totalReads * 1.5\<close> the comparator
  orders the pair by the written bytes, ties broken by the read bytes; else if
  \<open>totalReads > totalWrites * 1.5\<close> by the read bytes, ties broken by the written bytes;
  else by the sum of both, ties broken by the larger of the two; each in the direction
  of the sort. The classification is a function of the two records of the comparison
  alone.
\<close>

theorem disk_heuristic:
  assumes "field cfg = Disk_usage"
    and "(command a \<in> pinned) = (command b \<in> pinned)"
    and "disk_usage a = (aRead, aWrite)" and "disk_usage b = (bRead, bWrite)"
  shows "case classify (aRead, aWrite) (bRead, bWrite) of
           WriteDominant \<Rightarrow>
             ordersBy (direction cfg) (compareFn lc cfg pinned a b) (aWrite, aRead) (bWrite, bRead)
         | ReadDominant \<Rightarrow>
             ordersBy (direction cfg) (compareFn lc cfg pinned a b) (aRead, aWrite) (bRead, bWrite)
         | Balanced \<Rightarrow>
             ordersBy (direction cfg) (compareFn lc cfg pinned a b)
               (aRead + aWrite, max aRead aWrite) (bRead + bWrite, max bRead bWrite)"
proof (cases "direction cfg")
  case Asc
  with assms show ?thesis
    by (auto simp: compareFn_def classify_def ordersBy_def lexBefore_def Let_def)
next
  case Desc
  with assms show ?thesis
    by (auto simp: compareFn_def classify_def ordersBy_def lexBefore_def Let_def)
qed

text \<open>The two scenarios of the specification, in ascending order: (1000, 100) against
  (10, 900) is balanced and the first record sorts after the second; (10, 10) against
  (5, 500) is write-dominant and the first sorts before the second. The same record
  (10, 10) against (1000, 100) is read-dominant: the class belongs to the pair.\<close>

theorem disk_heuristic_witness:
  "classify (1000, 100) (10, 900) = Balanced \<and>
   0 < compareFn (\<lambda>s t. 0) byDisk {}
         (chrome\<lparr>disk_usage := (1000, 100)\<rparr>) (idle\<lparr>disk_usage := (10, 900)\<rparr>) \<and>
   classify (10, 10) (5, 500) = WriteDominant \<and>
   compareFn (\<lambda>s t. 0) byDisk {}
         (chrome\<lparr>disk_usage := (10, 10)\<rparr>) (idle\<lparr>disk_usage := (5, 500)\<rparr>) < 0 \<and>
   classify (10, 10) (1000, 100) = ReadDominant \<and>
   compareFn (\<lambda>s t. 0) byDisk {}
         (chrome\<lparr>disk_usage := (10, 10)\<rparr>) (idle\<lparr>disk_usage := (1000, 100)\<rparr>) < 0"
proof -
  have f: "field byDisk = Disk_usage" "direction byDisk = Asc" by (simp_all add: byDisk_def)
  have p: "(command x \<in> {}) = (command y \<in> {})" for x y :: process by simp
  have c1: "classify (1000, 100) (10, 900) = Balanced"
    and c2: "classify (10, 10) (5, 500) = WriteDominant"
    and c3: "classify (10, 10) (1000, 100) = ReadDominant"
    by (simp_all add: classify_def)
  from disk_heuristic [OF f(1) p, of "chrome\<lparr>disk_usage := (1000, 100)\<rparr>" 1000 100
      "idle\<lparr>disk_usage := (10, 900)\<rparr>" 10 900 "\<lambda>s t. 0"]
    disk_heuristic [OF f(1) p, of "chrome\<lparr>disk_usage := (10, 10)\<rparr>" 10 10
      "idle\<lparr>disk_usage := (5, 500)\<rparr>" 5 500 "\<lambda>s t. 0"]
    disk_heuristic [OF f(1) p, of "chrome\<lparr>disk_usage := (10, 10)\<rparr>" 10 10
      "idle\<lparr>disk_usage := (1000, 100)\<rparr>" 1000 100 "\<lambda>s t. 0"]
  show ?thesis
    unfolding c1 c2 c3 f by (simp add: ordersBy_def lexBefore_def)
qed

text \<open>
  Claim C7. The disk comparator is not one consistent order of the records: there are
  three records, with no pins and in ascending direction, of which the comparator puts
  the first before the second, the second before the third and the third before the
  first. The pairs of such a triple do not all fall in the same class, which is
  computed from the sums of the compared pair.
\<close>

theorem disk_comparator_not_transitive:
  "\<exists>a b c.
     compareFn lc \<lparr>field = Disk_usage, direction = Asc\<rparr> {} a b < 0 \<and>
     compareFn lc \<lparr>field = Disk_usage, direction = Asc\<rparr> {} b c < 0 \<and>
     compareFn lc \<lparr>field = Disk_usage, direction = Asc\<rparr> {} c a < 0 \<and>
     classify (disk_usage a) (disk_usage b) \<noteq> classify (disk_usage b) (disk_usage c)"
proof -
  have "compareFn lc \<lparr>field = Disk_usage, direction = Asc\<rparr> {} diskA diskB < 0"
    by (simp add: compareFn_def diskA_def diskB_def)
  moreover have "compareFn lc \<lparr>field = Disk_usage, direction = Asc\<rparr> {} diskB diskC < 0"
    by (simp add: compareFn_def diskB_def diskC_def)
  moreover have "compareFn lc \<lparr>field = Disk_usage, direction = Asc\<rparr> {} diskC diskA < 0"
    by (simp add: compareFn_def diskC_def diskA_def)
  moreover have "classify (disk_usage diskA) (disk_usage diskB) \<noteq>
      classify (disk_usage diskB) (disk_usage diskC)"
    by (simp add: classify_def diskA_def diskB_def diskC_def)
  ultimately show ?thesis by blast
qed

section \<open>sortProcesses: the sorted copy\<close>





lemma sortProcesses_result:
  assumes "arrays w r = Some ps" and "sortProcesses h r cfg pinned w = (r', w')"
  shows "r' = nextRef w"
    and "arrays w' =
      (arrays w)(nextRef w \<mapsto>
         fst (arraySort h (sortCallback (localeCompare h) cfg pinned) ps Map.empty))"
    and "regexCache w' = regexCache w"
  using assms
  by (auto simp: sortProcesses_def newArray_def elems_def Let_def split: prod.splits)



text \<open>
  Claim C9. \<^verbatim>\<open>sortProcesses\<close> returns a new array and leaves its argument as it was:
  the address returned is not the address given and was not allocated before the
  call; after the call the argument holds the same elements in the same order, and
  so does every other array of the store; the new array holds a rearrangement of
  the elements of the argument. This is so on every host whose sort rearranges its
  argument, which is what the language promises of every sort.
\<close>

theorem sort_leaves_input:
  assumes "arrays w r = Some ps" and "wf_world w" and "sortPermutes (arraySort h)"
    and "sortProcesses h r cfg pinned w = (r', w')"
  shows "r' \<noteq> r \<and> arrays w r' = None \<and> arrays w' r = Some ps \<and>
         (\<forall>a. a \<noteq> r' \<longrightarrow> arrays w' a = arrays w a) \<and>
         (\<exists>ys. arrays w' r' = Some ys \<and> mset ys = mset ps)"
proof -
  let ?ys = "fst (arraySort h (sortCallback (localeCompare h) cfg pinned) ps Map.empty)"
  note res = sortProcesses_result [OF assms(1,4)]
  from assms(1,2) have lt: "r < nextRef w" by (auto simp: wf_world_def)
  from assms(2) have fresh: "arrays w (nextRef w) = None"
    by (auto simp: wf_world_def)
  from assms(3) have perm: "mset ?ys = mset ps" by (simp add: sortPermutes_def)
  from res lt fresh perm assms(1) show ?thesis by auto
qed

text \<open>Ascending by cpu usage: the copy at the new address is reordered, the argument at
  address 0 is not. The same on a host that differs in sorting by insertion.\<close>

theorem sort_leaves_input_witness:
  "fst (sortProcesses exampleHost 0 \<lparr>field = Cpu_usage, direction = Asc\<rparr> {} snapshot) \<noteq> 0 \<and>
   arrays (snd (sortProcesses exampleHost 0 \<lparr>field = Cpu_usage, direction = Asc\<rparr> {} snapshot)) 0
     = Some [chrome, idle, helper] \<and>
   arrays (snd (sortProcesses exampleHost 0 \<lparr>field = Cpu_usage, direction = Asc\<rparr> {} snapshot))
          (fst (sortProcesses exampleHost 0 \<lparr>field = Cpu_usage, direction = Asc\<rparr> {} snapshot))
     = Some [idle, helper, chrome] \<and>
   arrays (snd (sortProcesses (exampleHost\<lparr>arraySort := insertionSort\<rparr>) 0
                  \<lparr>field = Cpu_usage, direction = Asc\<rparr> {} snapshot)) 0
     = Some [chrome, idle, helper] \<and>
   arrays (snd (sortProcesses (exampleHost\<lparr>arraySort := insertionSort\<rparr>) 0
                  \<lparr>field = Cpu_usage, direction = Asc\<rparr> {} snapshot))
          (fst (sortProcesses (exampleHost\<lparr>arraySort := insertionSort\<rparr>) 0
                  \<lparr>field = Cpu_usage, direction = Asc\<rparr> {} snapshot))
     = Some [idle, helper, chrome]"
proof -
  let ?R = "sortProcesses exampleHost 0 \<lparr>field = Cpu_usage, direction = Asc\<rparr> {} snapshot"
  let ?I = "sortProcesses (exampleHost\<lparr>arraySort := insertionSort\<rparr>) 0
              \<lparr>field = Cpu_usage, direction = Asc\<rparr> {} snapshot"
  have a: "arrays snapshot 0 = Some [chrome, idle, helper]" by (simp add: snapshot_def)
  have wf: "wf_world snapshot" by (simp add: wf_world_def snapshot_def)
  have p: "sortPermutes (arraySort exampleHost)"
    by (simp add: exampleHost_def shortTimSort_ok)
  have pi: "sortPermutes (arraySort (exampleHost\<lparr>arraySort := insertionSort\<rparr>))"
    by (simp add: insertionSort_ok)
  have r: "?R = (fst ?R, snd ?R)" and ri: "?I = (fst ?I, snd ?I)" by simp_all
  have e: "arrays (snd ?R) (fst ?R) = Some [idle, helper, chrome]" by code_simp
  have ei: "arrays (snd ?I) (fst ?I) = Some [idle, helper, chrome]" by code_simp
  from sort_leaves_input [OF a wf p r] sort_leaves_input [OF a wf pi ri] e ei
  show ?thesis by simp
qed

end
